theory Spec2Isabelle
  imports Main "HOL-Library.Word"
begin

section \<open>Data model of the profiler\<close>

text \<open>
  The model follows the variant of the library that keeps one record per thread in a
  \<open>std::map\<close> keyed by the thread identity and an insertion-order \<open>std::vector\<close> of
  identities. Member names are the source's, without the trailing underscore.
  Calls are modelled one at a time (one sequential interleaving); the mutex and the
  read/write lock only delimit critical sections and carry no data.
\<close>

type_synonym uint64_t = "64 word"
type_synonym uint32_t = "32 word"
type_synonym pthread_t = "64 word"

definition MAX_CHECKPOINT :: nat where
  "MAX_CHECKPOINT = 10"

definition DEFAULT_MAX_THREADS :: uint32_t where
  "DEFAULT_MAX_THREADS = 32"

definition SECOND_STR :: string where
  "SECOND_STR = ''Seconds''"

definition MICRO_SEC_STR :: string where
  "MICRO_SEC_STR = ''MicroSec''"

definition MILLI_SEC_STR :: string where
  "MILLI_SEC_STR = ''MilliSec''"

text \<open>
  What C++ leaves undefined is a value of the model: a write or read past the storage a
  vector has allocated, an access outside the fixed array of checkpoints, and an integer
  division by zero.
\<close>

datatype fault = VectorIndexOutOfRange | ArrayIndexOutOfRange | DivisionByZero

record CheckpointInfo =
  iterations :: uint64_t
  totalCycles :: uint64_t
  previousCycles :: uint64_t

text \<open>The constructor reads the clock once; the reading is the argument.\<close>

definition CheckpointInfo_ctor :: "uint64_t \<Rightarrow> CheckpointInfo" where
  "CheckpointInfo_ctor t = \<lparr>iterations = 0, totalCycles = 0, previousCycles = t\<rparr>"

text \<open>\<open>operator+=\<close> on two distinct objects (the accumulators of \<open>dump\<close> are locals).\<close>

definition CheckpointInfo_add :: "CheckpointInfo \<Rightarrow> CheckpointInfo \<Rightarrow> CheckpointInfo" where
  "CheckpointInfo_add lhs rhs =
     \<lparr>iterations = iterations lhs + iterations rhs,
      totalCycles = totalCycles lhs + totalCycles rhs,
      previousCycles = previousCycles lhs + previousCycles rhs\<rparr>"

record ThreadCheckpointInfo =
  checkpoints :: "CheckpointInfo list"
  creationCycles :: uint64_t
  lastCheckpointHit :: uint32_t

text \<open>
  Constructing a thread record constructs its \<open>MAX_CHECKPOINT\<close> slots first, each with a
  clock reading of its own, and then reads the clock once more for \<open>creationCycles\<close>:
  \<open>clk i\<close> is the reading stored in slot \<open>i\<close>, \<open>clk MAX_CHECKPOINT\<close> the creation stamp.
\<close>

definition ThreadCheckpointInfo_ctor :: "(nat \<Rightarrow> uint64_t) \<Rightarrow> ThreadCheckpointInfo" where
  "ThreadCheckpointInfo_ctor clk =
     \<lparr>checkpoints = map (\<lambda>i. CheckpointInfo_ctor (clk i)) [0..<MAX_CHECKPOINT],
      creationCycles = clk MAX_CHECKPOINT,
      lastCheckpointHit = 0\<rparr>"

text \<open>
  \<open>threadIdVector\<close> is the storage the vector has allocated: its length is the capacity.
  The source only ever calls \<open>reserve\<close> and \<open>operator[]\<close> on the vector, so its size
  stays 0 and nothing ever reallocates it.
\<close>

text \<open>
  \<open>numThreads\<close> is an \<open>int\<close> initialised from the unsigned argument of the constructor;
  the code only tests it against 0 and prints it, so it is kept as the 32 bits it holds.
\<close>

record Checkpoint =
  threadCpInfoMap :: "pthread_t \<rightharpoonup> ThreadCheckpointInfo"
  threadIdVector :: "pthread_t list"
  threadIdCounter :: uint32_t
  numThreads :: uint32_t
  isActive :: bool

text \<open>
  \<open>reserve\<close> allocates storage and initialises none of it: \<open>mem i\<close> is what cell \<open>i\<close> of
  the fresh storage happens to hold.
\<close>

definition Checkpoint_ctor :: "uint32_t \<Rightarrow> (nat \<Rightarrow> pthread_t) \<Rightarrow> Checkpoint" where
  "Checkpoint_ctor n mem =
     \<lparr>threadCpInfoMap = Map.empty,
      threadIdVector = map mem [0..<(if n > 1 then unat n else 1)],
      threadIdCounter = 0,
      numThreads = n,
      isActive = True\<rparr>"

definition setActive :: "bool \<Rightarrow> Checkpoint \<Rightarrow> Checkpoint" where
  "setActive active s = s\<lparr>isActive := active\<rparr>"

subsection \<open>Thread-record resolution\<close>

text \<open>
  \<open>v[i] = x\<close> and \<open>v[i]\<close> on the vector. \<open>operator[]\<close> does not check the index
  against the size: inside the allocated storage it is a store to, or a load from, cell
  \<open>i\<close>; past the storage it is a fault.
\<close>

definition vector_set :: "pthread_t list \<Rightarrow> nat \<Rightarrow> pthread_t \<Rightarrow> fault + pthread_t list" where
  "vector_set v i x = (if i < length v then Inr (v[i := x]) else Inl VectorIndexOutOfRange)"

definition vector_get :: "pthread_t list \<Rightarrow> nat \<Rightarrow> fault + pthread_t" where
  "vector_get v i = (if i < length v then Inr (v ! i) else Inl VectorIndexOutOfRange)"

text \<open>
  The section of \<open>getThreadCpInfo\<close> that runs under the write lock: the identity is
  written at \<open>threadIdCounter\<close>, the counter is incremented, and a fresh record is stored
  under the identity.
\<close>

definition register_thread ::
  "pthread_t \<Rightarrow> (nat \<Rightarrow> uint64_t) \<Rightarrow> Checkpoint \<Rightarrow> fault + Checkpoint" where
  "register_thread threadId clk s =
     (case vector_set (threadIdVector s) (unat (threadIdCounter s)) threadId of
        Inl f \<Rightarrow> Inl f
      | Inr v \<Rightarrow>
          Inr (s\<lparr>threadIdVector := v,
                 threadIdCounter := threadIdCounter s + 1,
                 threadCpInfoMap := (threadCpInfoMap s)(threadId \<mapsto> ThreadCheckpointInfo_ctor clk)\<rparr>))"

text \<open>
  The result is the key of the record the returned pointer designates, the record, and
  the registry after the call.
\<close>

definition getThreadCpInfo ::
  "pthread_t \<Rightarrow> (nat \<Rightarrow> uint64_t) \<Rightarrow> Checkpoint
     \<Rightarrow> fault + (pthread_t \<times> ThreadCheckpointInfo \<times> Checkpoint)" where
  "getThreadCpInfo threadId clk s =
     (if numThreads s = 0 then
        (if threadCpInfoMap s = Map.empty then
           (case vector_set (threadIdVector s) (unat (threadIdCounter s)) 0 of
              Inl f \<Rightarrow> Inl f
            | Inr v \<Rightarrow>
                Inr (0, ThreadCheckpointInfo_ctor clk,
                     s\<lparr>threadCpInfoMap := (threadCpInfoMap s)(0 \<mapsto> ThreadCheckpointInfo_ctor clk),
                       threadIdVector := v,
                       threadIdCounter := threadIdCounter s + 1\<rparr>))
         else
           (case threadCpInfoMap s 0 of
              Some r \<Rightarrow> Inr (0, r, s)
            | None \<Rightarrow>
                Inr (0, ThreadCheckpointInfo_ctor clk,
                     s\<lparr>threadCpInfoMap := (threadCpInfoMap s)(0 \<mapsto> ThreadCheckpointInfo_ctor clk)\<rparr>)))
      else
        (case threadCpInfoMap s threadId of
           Some r \<Rightarrow> Inr (threadId, r, s)
         | None \<Rightarrow>
             (case register_thread threadId clk s of
                Inl f \<Rightarrow> Inl f
              | Inr s' \<Rightarrow> Inr (threadId, ThreadCheckpointInfo_ctor clk, s'))))"

subsection \<open>The recorder\<close>

text \<open>
  The three statements that store the deltas, on the record of the calling thread.
  \<open>currentCp\<close> and \<open>previousCp\<close> are pointers into the same array, so they are indices
  here and every read goes through the array as it is at that statement.
\<close>

definition store_deltas ::
  "int \<Rightarrow> uint64_t \<Rightarrow> ThreadCheckpointInfo \<Rightarrow> fault + ThreadCheckpointInfo" where
  "store_deltas cp now threadCp =
     (let previousCp = unat (lastCheckpointHit threadCp) in
      if cp < 0 \<or> int MAX_CHECKPOINT \<le> cp \<or> MAX_CHECKPOINT \<le> previousCp
      then Inl ArrayIndexOutOfRange
      else
        let currentCp = nat cp;
            a0 = checkpoints threadCp;
            a1 = a0[currentCp := (a0 ! currentCp)\<lparr>iterations := iterations (a0 ! currentCp) + 1\<rparr>];
            a2 = a1[currentCp := (a1 ! currentCp)\<lparr>previousCycles := now\<rparr>];
            a3 = a2[currentCp := (a2 ! currentCp)
                      \<lparr>totalCycles := totalCycles (a2 ! currentCp)
                         + (previousCycles (a2 ! currentCp) - previousCycles (a2 ! previousCp))\<rparr>]
        in Inr (threadCp\<lparr>checkpoints := a3, lastCheckpointHit := word_of_int cp\<rparr>))"

text \<open>
  \<open>checkpoint cp threadId clk now\<close>: the call made by thread \<open>threadId\<close>; \<open>clk\<close> are the
  clock readings a record constructed by this call stores, \<open>now\<close> is the reading of
  \<open>getCycles()\<close> in the update.
\<close>

definition checkpoint ::
  "int \<Rightarrow> pthread_t \<Rightarrow> (nat \<Rightarrow> uint64_t) \<Rightarrow> uint64_t \<Rightarrow> Checkpoint \<Rightarrow> fault + Checkpoint" where
  "checkpoint cp threadId clk now s =
     (if \<not> isActive s then Inr s
      else
        (case getThreadCpInfo threadId clk s of
           Inl f \<Rightarrow> Inl f
         | Inr (key, threadCp, s') \<Rightarrow>
             (case store_deltas cp now threadCp of
                Inl f \<Rightarrow> Inl f
              | Inr threadCp' \<Rightarrow>
                  Inr (s'\<lparr>threadCpInfoMap := (threadCpInfoMap s')(key \<mapsto> threadCp')\<rparr>))))"

subsection \<open>Unit scaling\<close>

text \<open>The unit label and the two values as they are after the call.\<close>

definition getTimeResolutionStr :: "uint64_t \<Rightarrow> uint64_t \<Rightarrow> string \<times> uint64_t \<times> uint64_t" where
  "getTimeResolutionStr avgC totalC =
     (if avgC > 99999 \<and> totalC > 999999
      then (SECOND_STR, avgC div 1000000, totalC div 1000000)
      else if avgC > 9999 \<and> totalC > 99999
      then (MILLI_SEC_STR, avgC div 1000, totalC div 1000)
      else (MICRO_SEC_STR, avgC, totalC))"

subsection \<open>The reporter\<close>

text \<open>
  What \<open>dump\<close> writes to the stream, one value per line of the report, with the numbers
  as they are passed to \<open>operator<<\<close>. The timer resolution comes from the operating
  system and the throughput figures are floating-point quotients of the numbers on their
  line; neither is part of the model.
\<close>

datatype line =
    NumberOfThreads uint32_t uint32_t
  | TimerResolution
  | ThreadCheckpoint nat nat uint64_t string uint64_t uint64_t
  | EndOfThread
  | WeightedAverage nat uint64_t string uint64_t uint64_t
  | ThroughputHeader nat
  | ThroughputThread nat uint64_t uint64_t uint64_t uint64_t
  | TotalThroughput
  | ThreadIdsHeader uint32_t
  | ThreadIdEntry nat pthread_t

text \<open>
  \<open>threadCpInfoMap_[k]\<close>: \<open>operator[]\<close> of \<open>std::map\<close> inserts a default-constructed
  record when the key is absent.
\<close>

definition map_subscript ::
  "pthread_t \<Rightarrow> (nat \<Rightarrow> uint64_t) \<Rightarrow> Checkpoint \<Rightarrow> ThreadCheckpointInfo \<times> Checkpoint" where
  "map_subscript k clk s =
     (case threadCpInfoMap s k of
        Some r \<Rightarrow> (r, s)
      | None \<Rightarrow>
          (ThreadCheckpointInfo_ctor clk,
           s\<lparr>threadCpInfoMap := (threadCpInfoMap s)(k \<mapsto> ThreadCheckpointInfo_ctor clk)\<rparr>))"

text \<open>The loop that filters out unused threads.\<close>

definition threadUsed :: "CheckpointInfo list \<Rightarrow> bool" where
  "threadUsed cps =
     fold (\<lambda>chkPoint used. if iterations (cps ! chkPoint) \<noteq> 0 then True else used)
       [0..<MAX_CHECKPOINT] False"

text \<open>
  The loop that filters out unused checkpoints: \<open>chkPoint\<close> counts down from
  \<open>MAX_CHECKPOINT\<close>; \<open>currentCp\<close> starts at the last slot and, after each round, is the
  slot of the decremented \<open>chkPoint\<close>.
\<close>

primrec filter_unused :: "CheckpointInfo list \<Rightarrow> nat \<Rightarrow> nat \<Rightarrow> nat \<Rightarrow> nat" where
  "filter_unused cps 0 currentCp maxCpIndex = maxCpIndex"
| "filter_unused cps (Suc n) currentCp maxCpIndex =
     (if iterations (cps ! currentCp) = 0 then filter_unused cps n n (Suc n) else maxCpIndex)"

text \<open>The local arrays \<open>totalCpAvg\<close> and \<open>numCpHits\<close>, indexed by checkpoint id.\<close>

type_synonym averages = "(nat \<Rightarrow> CheckpointInfo) \<times> (nat \<Rightarrow> uint32_t)"

text \<open>The loop that prints the used checkpoints of one thread and accumulates them.\<close>

fun print_checkpoints ::
  "nat \<Rightarrow> CheckpointInfo list \<Rightarrow> nat list \<Rightarrow> averages \<Rightarrow> line list \<times> averages" where
  "print_checkpoints thread cps [] avgs = ([], avgs)"
| "print_checkpoints thread cps (checkPoint # rest) (totalCpAvg, numCpHits) =
     (let currentCp = cps ! checkPoint;
          hit = (iterations currentCp \<noteq> 0);
          avgCycles = (if hit then totalCycles currentCp div iterations currentCp else 0);
          totalCpAvg' =
            (if hit then totalCpAvg(checkPoint := CheckpointInfo_add (totalCpAvg checkPoint) currentCp)
             else totalCpAvg);
          numCpHits' =
            (if hit then numCpHits(checkPoint := numCpHits checkPoint + 1) else numCpHits)
      in case getTimeResolutionStr avgCycles (totalCycles currentCp) of
           (unitPtr, avgC, totalC) \<Rightarrow>
             (case print_checkpoints thread cps rest (totalCpAvg', numCpHits') of
                (out, avgs') \<Rightarrow>
                  (ThreadCheckpoint thread checkPoint (iterations currentCp) unitPtr avgC totalC # out,
                   avgs')))"

text \<open>
  One round of the loop over the registered threads; \<open>clk\<close> are the readings a record
  inserted by the map subscript would store.
\<close>

definition dump_thread ::
  "(nat \<Rightarrow> uint64_t) \<Rightarrow> nat \<Rightarrow> Checkpoint \<times> averages
     \<Rightarrow> line list \<times> (fault + Checkpoint \<times> averages)" where
  "dump_thread clk thread st =
     (case st of (s, avgs) \<Rightarrow>
        (case vector_get (threadIdVector s) thread of
           Inl f \<Rightarrow> ([], Inl f)
         | Inr threadId \<Rightarrow>
             (case map_subscript threadId clk s of
                (threadCp, s') \<Rightarrow>
                  if threadUsed (checkpoints threadCp)
                  then
                    (let maxCpIndex =
                           filter_unused (checkpoints threadCp) MAX_CHECKPOINT
                             (MAX_CHECKPOINT - 1) MAX_CHECKPOINT
                     in case print_checkpoints thread (checkpoints threadCp) [0..<maxCpIndex] avgs of
                          (out, avgs') \<Rightarrow> (out @ [EndOfThread], Inr (s', avgs')))
                  else ([], Inr (s', avgs)))))"

fun dump_threads ::
  "(nat \<Rightarrow> nat \<Rightarrow> uint64_t) \<Rightarrow> nat list \<Rightarrow> Checkpoint \<times> averages
     \<Rightarrow> line list \<times> (fault + Checkpoint \<times> averages)" where
  "dump_threads clk [] st = ([], Inr st)"
| "dump_threads clk (thread # rest) st =
     (case dump_thread (clk (Suc thread)) thread st of
        (out, Inl f) \<Rightarrow> (out, Inl f)
      | (out, Inr st') \<Rightarrow>
          (case dump_threads clk rest st' of (out', res) \<Rightarrow> (out @ out', res)))"

text \<open>The weighted averages; the stream keeps what was written before a fault.\<close>

fun dump_averages :: "nat list \<Rightarrow> averages \<Rightarrow> line list \<times> (fault + unit)" where
  "dump_averages [] avgs = ([], Inr ())"
| "dump_averages (i # rest) (totalCpAvg, numCpHits) =
     (if numCpHits i > 1
      then
        (let total = totalCycles (totalCpAvg i) div ucast (numCpHits i);
             iters = iterations (totalCpAvg i) div ucast (numCpHits i)
         in if iters = 0 then ([], Inl DivisionByZero)
            else
              (case getTimeResolutionStr (total div iters) total of
                 (unitPtr, avgC, totalC) \<Rightarrow>
                   (case dump_averages rest (totalCpAvg, numCpHits) of
                      (out, res) \<Rightarrow> (WeightedAverage i iters unitPtr avgC totalC # out, res))))
      else dump_averages rest (totalCpAvg, numCpHits))"

text \<open>
  The loop of \<open>dumpThroughput\<close> that looks for the last checkpoint hit by thread 0, and
  the loop over the threads, which reads slot \<open>maxCpIndex\<close> of each.
\<close>

primrec last_hit :: "CheckpointInfo list \<Rightarrow> nat \<Rightarrow> nat \<Rightarrow> nat \<Rightarrow> nat" where
  "last_hit cps 0 currentCp maxCpIndex = maxCpIndex"
| "last_hit cps (Suc n) currentCp maxCpIndex =
     (if iterations (cps ! currentCp) \<noteq> 0 then Suc n else last_hit cps n n maxCpIndex)"

fun throughput_threads ::
  "(nat \<Rightarrow> nat \<Rightarrow> uint64_t) \<Rightarrow> nat \<Rightarrow> nat list \<Rightarrow> Checkpoint
     \<Rightarrow> line list \<times> (fault + Checkpoint)" where
  "throughput_threads clk maxCpIndex [] s = ([], Inr s)"
| "throughput_threads clk maxCpIndex (thread # rest) s =
     (case vector_get (threadIdVector s) thread of
        Inl f \<Rightarrow> ([], Inl f)
      | Inr threadId \<Rightarrow>
          (case map_subscript threadId (clk (Suc thread)) s of
             (threadCp, s') \<Rightarrow>
               if MAX_CHECKPOINT \<le> maxCpIndex then ([], Inl ArrayIndexOutOfRange)
               else
                 (let startTime = creationCycles threadCp;
                      endTime = previousCycles (checkpoints threadCp ! maxCpIndex);
                      iters = iterations (checkpoints threadCp ! maxCpIndex)
                  in case throughput_threads clk maxCpIndex rest s' of
                       (out, res) \<Rightarrow>
                         (ThroughputThread thread startTime endTime (endTime - startTime) iters # out,
                          res))))"

definition dumpThroughput ::
  "(nat \<Rightarrow> nat \<Rightarrow> uint64_t) \<Rightarrow> Checkpoint \<Rightarrow> line list \<times> (fault + Checkpoint)" where
  "dumpThroughput clk s =
     (case vector_get (threadIdVector s) 0 of
        Inl f \<Rightarrow> ([], Inl f)
      | Inr threadId \<Rightarrow>
          (case map_subscript threadId (clk 0) s of
             (threadZeroCps, s') \<Rightarrow>
               (let maxCpIndex =
                      last_hit (checkpoints threadZeroCps) MAX_CHECKPOINT
                        (MAX_CHECKPOINT - 1) MAX_CHECKPOINT
                in case throughput_threads clk maxCpIndex [0..<unat (threadIdCounter s')] s' of
                     (out, Inl f) \<Rightarrow> (ThroughputHeader maxCpIndex # out, Inl f)
                   | (out, Inr s'') \<Rightarrow>
                       (ThroughputHeader maxCpIndex # out @ [TotalThroughput], Inr s''))))"

fun dump_threadIds :: "nat list \<Rightarrow> Checkpoint \<Rightarrow> line list \<times> (fault + unit)" where
  "dump_threadIds [] s = ([], Inr ())"
| "dump_threadIds (i # rest) s =
     (case vector_get (threadIdVector s) i of
        Inl f \<Rightarrow> ([], Inl f)
      | Inr threadId \<Rightarrow>
          (case dump_threadIds rest s of (out, res) \<Rightarrow> (ThreadIdEntry i threadId # out, res)))"

text \<open>
  \<open>dump clk clkT dumpAverages dumpTput dumpThreadIds\<close>: what is written to the stream,
  and the registry after the call or the fault that ended it. \<open>clk 0\<close> are the clock
  readings stored in the local array \<open>totalCpAvg\<close>, \<open>clk (Suc thread)\<close> and
  \<open>clkT\<close> those a record inserted by a map subscript would store.
\<close>

definition dump ::
  "(nat \<Rightarrow> nat \<Rightarrow> uint64_t) \<Rightarrow> (nat \<Rightarrow> nat \<Rightarrow> uint64_t) \<Rightarrow> bool \<Rightarrow> bool \<Rightarrow> bool \<Rightarrow> Checkpoint
     \<Rightarrow> line list \<times> (fault + Checkpoint)" where
  "dump clk clkT dumpAverages dumpTput dumpThreadIds s =
     (let header = [NumberOfThreads (numThreads s) (threadIdCounter s), TimerResolution];
          totalCpAvg = (\<lambda>i. CheckpointInfo_ctor (clk 0 i));
          numCpHits = (\<lambda>i. 0)
      in case dump_threads clk [0..<unat (threadIdCounter s)] (s, totalCpAvg, numCpHits) of
           (out1, Inl f) \<Rightarrow> (header @ out1, Inl f)
         | (out1, Inr (s1, avgs)) \<Rightarrow>
             (case (if dumpAverages then dump_averages [0..<MAX_CHECKPOINT] avgs
                    else ([], Inr ())) of
                (out2, Inl f) \<Rightarrow> (header @ out1 @ out2, Inl f)
              | (out2, Inr u) \<Rightarrow>
                  (case (if dumpTput then dumpThroughput clkT s1 else ([], Inr s1)) of
                     (out3, Inl f) \<Rightarrow> (header @ out1 @ out2 @ out3, Inl f)
                   | (out3, Inr s2) \<Rightarrow>
                       (case (if dumpThreadIds
                              then (case dump_threadIds [0..<unat (threadIdCounter s2)] s2 of
                                      (out, res) \<Rightarrow> (ThreadIdsHeader (threadIdCounter s2) # out, res))
                              else ([], Inr ())) of
                          (out4, Inl f) \<Rightarrow> (header @ out1 @ out2 @ out3 @ out4, Inl f)
                        | (out4, Inr u') \<Rightarrow> (header @ out1 @ out2 @ out3 @ out4, Inr s2)))))"

subsection \<open>Sequences of calls\<close>

text \<open>
  A call of \<open>checkpoint\<close>: the id, the calling thread, the clock readings a record
  constructed by the call would store, and the clock reading of the update.
\<close>

type_synonym call = "int \<times> pthread_t \<times> (nat \<Rightarrow> uint64_t) \<times> uint64_t"

fun checkpoint_calls :: "call list \<Rightarrow> Checkpoint \<Rightarrow> fault + Checkpoint" where
  "checkpoint_calls [] s = Inr s"
| "checkpoint_calls ((cp, threadId, clk, now) # cs) s =
     (case checkpoint cp threadId clk now s of
        Inl f \<Rightarrow> Inl f
      | Inr s' \<Rightarrow> checkpoint_calls cs s')"

text \<open>The calls of one thread, as they act on its record: the id and the clock reading.\<close>

fun store_deltas_calls ::
  "(int \<times> uint64_t) list \<Rightarrow> ThreadCheckpointInfo \<Rightarrow> fault + ThreadCheckpointInfo" where
  "store_deltas_calls [] r = Inr r"
| "store_deltas_calls ((cp, now) # cs) r =
     (case store_deltas cp now r of
        Inl f \<Rightarrow> Inl f
      | Inr r' \<Rightarrow> store_deltas_calls cs r')"

text \<open>The sum of the elapsed-time deltas a thread record has accumulated.\<close>

definition totalElapsed :: "ThreadCheckpointInfo \<Rightarrow> uint64_t" where
  "totalElapsed r = sum_list (map totalCycles (checkpoints r))"

text \<open>
  The registered part of the insertion-order index, and the invariant of the registry:
  the counter stays inside the allocated storage, and the registered identities are
  distinct keys of the thread map.
\<close>

definition registered :: "Checkpoint \<Rightarrow> pthread_t list" where
  "registered s = take (unat (threadIdCounter s)) (threadIdVector s)"

definition registry_inv :: "Checkpoint \<Rightarrow> bool" where
  "registry_inv s \<longleftrightarrow>
     unat (threadIdCounter s) \<le> length (threadIdVector s)
     \<and> distinct (registered s)
     \<and> set (registered s) \<subseteq> dom (threadCpInfoMap s)"

subsection \<open>The singleton\<close>

text \<open>
  The static members \<open>instance_\<close> and \<open>useLocking_\<close>, and the \<open>Checkpoint\<close> objects alive
  on the heap. A pointer is an address, the null pointer is \<open>None\<close>; \<open>new\<close> takes the
  next address.
\<close>

record globals =
  instancePtr :: "nat option"
  useLocking :: bool
  objects :: "nat \<rightharpoonup> Checkpoint"
  allocated :: nat

definition globals_init :: globals where
  "globals_init = \<lparr>instancePtr = None, useLocking = True, objects = Map.empty, allocated = 0\<rparr>"

definition initialize :: "uint32_t \<Rightarrow> bool \<Rightarrow> (nat \<Rightarrow> pthread_t) \<Rightarrow> globals \<Rightarrow> globals" where
  "initialize n locking mem g =
     (let g1 = g\<lparr>useLocking := locking\<rparr> in
      if instancePtr g1 = None
      then g1\<lparr>objects := (objects g1)(Suc (allocated g1) \<mapsto> Checkpoint_ctor n mem),
              allocated := Suc (allocated g1),
              instancePtr := Some (Suc (allocated g1))\<rparr>
      else g1)"

definition instance_of :: "(nat \<Rightarrow> pthread_t) \<Rightarrow> globals \<Rightarrow> nat option \<times> globals" where
  "instance_of mem g =
     (let g1 = (if instancePtr g = None then initialize DEFAULT_MAX_THREADS True mem g else g)
      in (instancePtr g1, g1))"

definition destroy :: "globals \<Rightarrow> globals" where
  "destroy g =
     (let g1 = (case instancePtr g of
                  Some a \<Rightarrow> g\<lparr>objects := (objects g)(a := None)\<rparr>
                | None \<Rightarrow> g)
      in g1\<lparr>instancePtr := None\<rparr>)"

subsection \<open>Concrete inputs\<close>

text \<open>A clock that reads 50 at every construction, and fresh storage that holds zeros.\<close>

definition clk50 :: "nat \<Rightarrow> uint64_t" where
  "clk50 i = 50"

definition mem0 :: "nat \<Rightarrow> pthread_t" where
  "mem0 i = 0"

text \<open>The record of a thread in the outcome of a run, if the run returned.\<close>

definition record_of :: "fault + Checkpoint \<Rightarrow> pthread_t \<Rightarrow> ThreadCheckpointInfo option" where
  "record_of res threadId = (case res of Inl f \<Rightarrow> None | Inr s \<Rightarrow> threadCpInfoMap s threadId)"

text \<open>
  Single-threaded mode after the first call: one record, under key 0, registered once.
\<close>

definition single_record :: "Checkpoint \<Rightarrow> bool" where
  "single_record s \<longleftrightarrow>
     numThreads s = 0 \<and> isActive s \<and> dom (threadCpInfoMap s) = {0} \<and> threadIdCounter s = 1
     \<and> registered s = [0]
     \<and> (case threadCpInfoMap s 0 of
          Some r \<Rightarrow> unat (lastCheckpointHit r) < MAX_CHECKPOINT
        | None \<Rightarrow> False)"

text \<open>The same call made by thread \<open>t\<close>, and a call whose id is inside the array.\<close>

definition as_thread :: "pthread_t \<Rightarrow> call \<Rightarrow> call" where
  "as_thread t c = (case c of (cp, threadId, clk, now) \<Rightarrow> (cp, t, clk, now))"

definition valid_id :: "call \<Rightarrow> bool" where
  "valid_id c \<longleftrightarrow> 0 \<le> fst c \<and> fst c < int MAX_CHECKPOINT"

subsection \<open>The weighted averages, as the report describes them\<close>

text \<open>
  The slot of checkpoint id \<open>i\<close> in the record of the thread registered at position
  \<open>thread\<close> of the index; the registered threads that contribute to id \<open>i\<close> (their slot
  has been hit at least once), in registration order.
\<close>

definition thread_slot :: "Checkpoint \<Rightarrow> nat \<Rightarrow> nat \<Rightarrow> CheckpointInfo" where
  "thread_slot s thread i =
     (case threadCpInfoMap s (threadIdVector s ! thread) of
        Some r \<Rightarrow> checkpoints r ! i
      | None \<Rightarrow> CheckpointInfo_ctor 0)"

definition contributes :: "Checkpoint \<Rightarrow> nat \<Rightarrow> nat \<Rightarrow> bool" where
  "contributes s i thread \<longleftrightarrow> iterations (thread_slot s thread i) \<noteq> 0"

definition contributing :: "Checkpoint \<Rightarrow> nat \<Rightarrow> nat list" where
  "contributing s i = filter (contributes s i) [0..<unat (threadIdCounter s)]"

text \<open>The lines of the weighted-averages section.\<close>

fun is_WeightedAverage :: "line \<Rightarrow> bool" where
  "is_WeightedAverage (WeightedAverage i n u a t) = True"
| "is_WeightedAverage l = False"

text \<open>The line \<open>dump\<close> prints for id \<open>i\<close> from its two local arrays.\<close>

definition average_line :: "averages \<Rightarrow> nat \<Rightarrow> line" where
  "average_line avgs i =
     (case avgs of (totalCpAvg, numCpHits) \<Rightarrow>
        (let total = totalCycles (totalCpAvg i) div ucast (numCpHits i);
             iters = iterations (totalCpAvg i) div ucast (numCpHits i)
         in case getTimeResolutionStr (total div iters) total of
              (unitPtr, avgC, totalC) \<Rightarrow> WeightedAverage i iters unitPtr avgC totalC))"

text \<open>
  The line of the weighted-averages section for id \<open>i\<close>: the totals and the iteration
  counts of the contributing threads are summed (in 64 bits), each sum is divided by the
  number of contributing threads, the average is the quotient of the two, and the pair
  (average, total) is unit-scaled. \<open>iterations_fit\<close>: for no id does the sum of the
  contributing iteration counts reach \<open>2 ^ 64\<close>.
\<close>

definition weighted_average :: "Checkpoint \<Rightarrow> nat \<Rightarrow> line" where
  "weighted_average s i =
     (let threads = contributing s i;
          n = of_nat (length threads);
          total = sum_list (map (\<lambda>t. totalCycles (thread_slot s t i)) threads) div n;
          iters = sum_list (map (\<lambda>t. iterations (thread_slot s t i)) threads) div n
      in case getTimeResolutionStr (total div iters) total of
           (unitPtr, avgC, totalC) \<Rightarrow> WeightedAverage i iters unitPtr avgC totalC)"

definition iterations_fit :: "Checkpoint \<Rightarrow> bool" where
  "iterations_fit s =
     list_all (\<lambda>i. sum_list (map (\<lambda>t. unat (iterations (thread_slot s t i))) (contributing s i))
                    < 2 ^ 64)
       [0..<MAX_CHECKPOINT]"

text \<open>
  The same line with the sums taken of natural numbers, where nothing wraps around: the
  accumulated total and the accumulated iteration count, each divided by the number of
  contributing threads. Under \<open>iterations_fit\<close> and \<open>totals_fit\<close> (for no id does the
  sum of the contributing totals reach \<open>2 ^ 64\<close>) both quotients and the average are
  below \<open>2 ^ 64\<close>, so their conversion to the 64 bits of the printed line loses nothing.
\<close>

definition totals_fit :: "Checkpoint \<Rightarrow> bool" where
  "totals_fit s =
     list_all (\<lambda>i. sum_list (map (\<lambda>t. unat (totalCycles (thread_slot s t i))) (contributing s i))
                    < 2 ^ 64)
       [0..<MAX_CHECKPOINT]"

definition weighted_average_spec :: "Checkpoint \<Rightarrow> nat \<Rightarrow> line" where
  "weighted_average_spec s i =
     (let threads = contributing s i;
          n = length threads;
          total = sum_list (map (\<lambda>t. unat (totalCycles (thread_slot s t i))) threads) div n;
          iters = sum_list (map (\<lambda>t. unat (iterations (thread_slot s t i))) threads) div n
      in case getTimeResolutionStr (of_nat (total div iters)) (of_nat total) of
           (unitPtr, avgC, totalC) \<Rightarrow> WeightedAverage i (of_nat iters) unitPtr avgC totalC)"

subsection \<open>The elapsed-time pairs of the report\<close>

text \<open>
  The line of the per-thread section for slot \<open>cp\<close> of the thread registered at position
  \<open>thread\<close>: the average is the total divided by the iteration count (0 for a slot that
  was never hit), and the pair (average, total) goes through \<open>getTimeResolutionStr\<close>.
  A line that carries an elapsed-time pair is printed as it should be when it is the line
  of its slot or the line of its id.
\<close>

definition detail_line :: "Checkpoint \<Rightarrow> nat \<Rightarrow> nat \<Rightarrow> line" where
  "detail_line s thread cp =
     (let currentCp = thread_slot s thread cp;
          avgCycles = (if iterations currentCp \<noteq> 0
                       then totalCycles currentCp div iterations currentCp else 0)
      in case getTimeResolutionStr avgCycles (totalCycles currentCp) of
           (unitPtr, avgC, totalC) \<Rightarrow>
             ThreadCheckpoint thread cp (iterations currentCp) unitPtr avgC totalC)"

fun printed_pair :: "Checkpoint \<Rightarrow> line \<Rightarrow> bool" where
  "printed_pair s (ThreadCheckpoint thread cp n u a t) =
     (ThreadCheckpoint thread cp n u a t = detail_line s thread cp)"
| "printed_pair s (WeightedAverage i n u a t) =
     (WeightedAverage i n u a t = weighted_average s i)"
| "printed_pair s l = True"

subsection \<open>Concrete registries\<close>

text \<open>
  A record whose slot 0 has been hit \<open>n\<close> times for a total of \<open>t\<close> and whose other
  slots have never been hit; a registry of two threads with 1 and 3 hits of checkpoint 0;
  and one of two threads with \<open>2 ^ 63\<close> hits each.
\<close>

definition clk50_sites :: "nat \<Rightarrow> nat \<Rightarrow> uint64_t" where
  "clk50_sites j = clk50"

definition busy_record :: "uint64_t \<Rightarrow> uint64_t \<Rightarrow> ThreadCheckpointInfo" where
  "busy_record n t =
     \<lparr>checkpoints =
        \<lparr>iterations = n, totalCycles = t, previousCycles = 60\<rparr> # replicate 9 (CheckpointInfo_ctor 50),
      creationCycles = 50,
      lastCheckpointHit = 0\<rparr>"

definition registry_two :: Checkpoint where
  "registry_two =
     \<lparr>threadCpInfoMap = [1 \<mapsto> busy_record 1 10, 2 \<mapsto> busy_record 3 30],
      threadIdVector = [1, 2],
      threadIdCounter = 2,
      numThreads = 2,
      isActive = True\<rparr>"

definition registry_wrap :: Checkpoint where
  "registry_wrap =
     \<lparr>threadCpInfoMap = [1 \<mapsto> busy_record (2 ^ 63) 5, 2 \<mapsto> busy_record (2 ^ 63) 5],
      threadIdVector = [1, 2],
      threadIdCounter = 2,
      numThreads = 2,
      isActive = True\<rparr>"

text \<open>
  Clocks that read 60 and 100 at every construction, and fresh storage that holds sevens.
\<close>

definition clk60 :: "nat \<Rightarrow> uint64_t" where
  "clk60 i = 60"

definition clk100 :: "nat \<Rightarrow> uint64_t" where
  "clk100 i = 100"

definition mem7 :: "nat \<Rightarrow> pthread_t" where
  "mem7 i = 7"

text \<open>
  The registry after one call of \<open>checkpoint(1)\<close> from each of the threads 1 and 2, whose
  records were constructed at clock reading 100 and whose calls read 60: the delta, taken
  in 64 bits, is \<open>2 ^ 64 - 40\<close>.
\<close>

definition back_record :: ThreadCheckpointInfo where
  "back_record =
     \<lparr>checkpoints =
        CheckpointInfo_ctor 100
          # \<lparr>iterations = 1, totalCycles = 18446744073709551576, previousCycles = 60\<rparr>
          # replicate 8 (CheckpointInfo_ctor 100),
      creationCycles = 100,
      lastCheckpointHit = 1\<rparr>"

definition registry_back :: Checkpoint where
  "registry_back =
     \<lparr>threadCpInfoMap = [1 \<mapsto> back_record, 2 \<mapsto> back_record],
      threadIdVector = [1, 2],
      threadIdCounter = 2,
      numThreads = 2,
      isActive = True\<rparr>"

text \<open>
  The registry of capacity 2 after one call of \<open>checkpoint(1)\<close> at clock reading 500050
  from thread 1, whose record was constructed at 50.
\<close>

definition ms_record :: ThreadCheckpointInfo where
  "ms_record =
     \<lparr>checkpoints =
        CheckpointInfo_ctor 50
          # \<lparr>iterations = 1, totalCycles = 500000, previousCycles = 500050\<rparr>
          # replicate 8 (CheckpointInfo_ctor 50),
      creationCycles = 50,
      lastCheckpointHit = 1\<rparr>"

definition registry_ms :: Checkpoint where
  "registry_ms =
     \<lparr>threadCpInfoMap = [1 \<mapsto> ms_record],
      threadIdVector = [1, 0],
      threadIdCounter = 1,
      numThreads = 2,
      isActive = True\<rparr>"

subsection \<open>The slow path of the registration, between its two locks\<close>

text \<open>
  In multi-threaded mode \<open>getThreadCpInfo\<close> looks the caller up under the read lock,
  releases it, and only then takes the write lock for the section that registers the
  caller. \<open>window\<close> is what other threads do to the registry between the two locks; the
  write-locked section runs on the registry they leave, without a second lookup. The
  single-threaded branch takes no lock and is as in \<open>getThreadCpInfo\<close>. With nothing
  in between (\<open>window = Inr\<close>) this is \<open>getThreadCpInfo\<close> itself.
  \<open>call_thread\<close> is the thread that makes a call.
\<close>

definition call_thread :: "call \<Rightarrow> pthread_t" where
  "call_thread c = fst (snd c)"

definition getThreadCpInfo_interleaved ::
  "pthread_t \<Rightarrow> (nat \<Rightarrow> uint64_t) \<Rightarrow> (Checkpoint \<Rightarrow> fault + Checkpoint) \<Rightarrow> Checkpoint
     \<Rightarrow> fault + (pthread_t \<times> ThreadCheckpointInfo \<times> Checkpoint)" where
  "getThreadCpInfo_interleaved threadId clk window s =
     (if numThreads s = 0 then getThreadCpInfo threadId clk s
      else
        (case threadCpInfoMap s threadId of
           Some r \<Rightarrow> Inr (threadId, r, s)
         | None \<Rightarrow>
             (case window s of
                Inl f \<Rightarrow> Inl f
              | Inr s1 \<Rightarrow>
                  (case register_thread threadId clk s1 of
                     Inl f \<Rightarrow> Inl f
                   | Inr s2 \<Rightarrow> Inr (threadId, ThreadCheckpointInfo_ctor clk, s2)))))"

text \<open>
  A call of \<open>dump\<close> that asks for the throughput only, as it leaves the registry (a
  record it inserts is constructed at clock reading 50).
\<close>

definition throughput_dump :: "Checkpoint \<Rightarrow> fault + Checkpoint" where
  "throughput_dump s = snd (dump clk50_sites clk50_sites False True False s)"

subsection \<open>Outcomes of a run\<close>

text \<open>
  A run continued by another, if it returned; the keys of the thread map, the counter and
  the registered identities in the outcome of a run, if it returned; and the part of a
  call that acts on the record: its id and its clock reading.
\<close>

definition and_then ::
  "fault + Checkpoint \<Rightarrow> (Checkpoint \<Rightarrow> fault + Checkpoint) \<Rightarrow> fault + Checkpoint" where
  "and_then res f = (case res of Inl e \<Rightarrow> Inl e | Inr s \<Rightarrow> f s)"

definition registry_summary ::
  "fault + Checkpoint \<Rightarrow> (pthread_t set \<times> uint32_t \<times> pthread_t list) option" where
  "registry_summary res =
     (case res of
        Inl e \<Rightarrow> None
      | Inr s \<Rightarrow> Some (dom (threadCpInfoMap s), threadIdCounter s, registered s))"

definition call_update :: "call \<Rightarrow> int \<times> uint64_t" where
  "call_update c = (fst c, snd (snd (snd c)))"

section \<open>Properties\<close>

subsection \<open>Unit scaling\<close>

lemma unit_strings_distinct:
  "SECOND_STR \<noteq> MILLI_SEC_STR" "SECOND_STR \<noteq> MICRO_SEC_STR" "MILLI_SEC_STR \<noteq> MICRO_SEC_STR"
  by (simp_all add: SECOND_STR_def MILLI_SEC_STR_def MICRO_SEC_STR_def)

text \<open>
  An elapsed-time pair is scaled as a pair: the two values are divided by one common
  factor \<open>k\<close>, with one label. The factor is 1000000 (label Seconds) exactly when both
  values exceed the seconds thresholds; it is 1000 (label MilliSec) exactly when that is
  not so and both exceed the milliseconds thresholds; otherwise it is 1 (label MicroSec).
\<close>


lemma getTimeResolutionStr_common_factor:
  "\<exists>k u. getTimeResolutionStr a t = (u, a div k, t div k)
     \<and> (k = 1000000 \<or> k = 1000 \<or> k = 1)
     \<and> (k = 1000000) = (a > 99999 \<and> t > 999999)
     \<and> (k = 1000) = (\<not> (a > 99999 \<and> t > 999999) \<and> a > 9999 \<and> t > 99999)
     \<and> (u = SECOND_STR) = (k = 1000000)
     \<and> (u = MILLI_SEC_STR) = (k = 1000)
     \<and> (u = MICRO_SEC_STR) = (k = 1)
     \<and> ((a > 99999) \<noteq> (t > 999999) \<longrightarrow> k \<noteq> 1000000)
     \<and> ((a > 9999) \<noteq> (t > 99999) \<longrightarrow> getTimeResolutionStr a t = (MICRO_SEC_STR, a, t))"
proof -
  consider (sec) "a > 99999 \<and> t > 999999"
    | (ms) "\<not> (a > 99999 \<and> t > 999999)" "a > 9999 \<and> t > 99999"
    | (us) "\<not> (a > 99999 \<and> t > 999999)" "\<not> (a > 9999 \<and> t > 99999)"
    by blast
  then show ?thesis
  proof cases
    case sec
    then have "a > 9999" "t > 99999" by (simp_all add: word_less_nat_alt)
    with sec show ?thesis
      by (intro exI [of _ 1000000] exI [of _ SECOND_STR])
         (simp add: getTimeResolutionStr_def unit_strings_distinct)
  next
    case ms
    then show ?thesis
      by (intro exI [of _ 1000] exI [of _ MILLI_SEC_STR])
         (auto simp add: getTimeResolutionStr_def unit_strings_distinct
            unit_strings_distinct [symmetric])
  next
    case us
    have "a > 99999 \<Longrightarrow> a > 9999" "t > 999999 \<Longrightarrow> t > 99999"
      by (simp_all add: word_less_nat_alt)
    with us show ?thesis
      by (intro exI [of _ 1] exI [of _ MICRO_SEC_STR])
         (auto simp add: getTimeResolutionStr_def unit_strings_distinct
            unit_strings_distinct [symmetric])
  qed
qed

subsection \<open>The inactive registry\<close>

text \<open>
  C5. When the registry is inactive, a call to \<open>checkpoint\<close>, for any id, from any thread
  and at any clock reading, returns at once with the whole registry as it was: the thread
  map with every record and slot in it, the insertion-order index and its counter.
\<close>

theorem checkpoint_inactive_noop:
  "\<not> isActive s \<Longrightarrow> checkpoint cp threadId clk now s = Inr s"
  by (simp add: checkpoint_def)

theorem checkpoint_inactive_noop_witness:
  "\<not> isActive (setActive False (Checkpoint_ctor 32 mem0))
   \<and> checkpoint 3 7 clk50 100 (setActive False (Checkpoint_ctor 32 mem0))
       = Inr (setActive False (Checkpoint_ctor 32 mem0))"
proof -
  have h: "\<not> isActive (setActive False (Checkpoint_ctor 32 mem0))"
    by (simp add: setActive_def)
  from checkpoint_inactive_noop [OF h] h show ?thesis by simp
qed

subsection \<open>Evaluation\<close>

lemmas eval_defs = checkpoint_def getThreadCpInfo_def register_thread_def vector_set_def
  store_deltas_def ThreadCheckpointInfo_ctor_def CheckpointInfo_ctor_def Checkpoint_ctor_def
  MAX_CHECKPOINT_def clk50_def mem0_def Let_def

lemma upt_10: "[0..<10] = [0, 1, 2, 3, 4, 5, 6, 7, 8, 9]"
  by (simp add: upt_rec)

lemma upt_2: "[0..<2] = [0, 1]"
  by (simp add: upt_rec)

lemma replicate_8: "replicate 8 x = [x, x, x, x, x, x, x, x]"
  by (simp add: eval_nat_numeral)

lemma Suc_Suc_0: "Suc (Suc 0) = 2"
  by simp

lemma word_back: "(18446744073709551576 :: uint64_t) = - 40"
  by simp


lemma unat_word_of_int_id:
  "0 \<le> cp \<Longrightarrow> cp < int MAX_CHECKPOINT \<Longrightarrow> unat (word_of_int cp :: uint32_t) = nat cp"
  by (simp add: MAX_CHECKPOINT_def unat_eq_nat_uint uint_word_of_int take_bit_int_eq_self)

subsection \<open>Thread registration\<close>

lemma registry_inv_ctor: "registry_inv (Checkpoint_ctor n mem)"
  by (simp add: registry_inv_def registered_def Checkpoint_ctor_def)

lemma registered_after_write:
  assumes "unat c < length v" "unat (c + 1 :: uint32_t) \<noteq> 0"
  shows "take (unat (c + 1)) (v[unat c := x]) = take (unat c) v @ [x]"
proof -
  have "unat (c + 1) = Suc (unat c)"
    using assms(2) by (simp add: unatSuc add.commute unat_eq_zero)
  then show ?thesis using assms(1)
    by (simp add: take_Suc_conv_app_nth)
qed

lemma register_thread_inv:
  assumes inv: "registry_inv s"
    and absent: "threadCpInfoMap s threadId = None"
    and ok: "register_thread threadId clk s = Inr s'"
  shows "registry_inv s'"
proof -
  let ?c = "threadIdCounter s"
  let ?v = "threadIdVector s"
  from ok have lt: "unat ?c < length ?v"
    by (simp add: register_thread_def vector_set_def split: if_splits)
  from ok lt have s': "s' = s\<lparr>threadIdVector := ?v[unat ?c := threadId],
      threadIdCounter := ?c + 1,
      threadCpInfoMap := (threadCpInfoMap s)(threadId \<mapsto> ThreadCheckpointInfo_ctor clk)\<rparr>"
    by (simp add: register_thread_def vector_set_def)
  show ?thesis
  proof (cases "unat (?c + 1) = 0")
    case True
    then show ?thesis by (simp add: registry_inv_def registered_def s')
  next
    case False
    then have reg: "registered s' = registered s @ [threadId]"
      using lt by (simp add: registered_def s' registered_after_write)
    have le: "unat (?c + 1) \<le> length ?v"
      using lt False by (simp add: unatSuc add.commute unat_eq_zero)
    from inv absent have notin: "threadId \<notin> set (registered s)"
      by (auto simp: registry_inv_def)
    from inv have "distinct (registered s)" "set (registered s) \<subseteq> dom (threadCpInfoMap s)"
      by (simp_all add: registry_inv_def)
    with notin reg le show ?thesis
      by (auto simp: registry_inv_def s')
  qed
qed

text \<open>
  Every call of \<open>checkpoint\<close> that returns keeps the invariant, so every registry reached
  from the constructor by calls of \<open>checkpoint\<close> satisfies it.
\<close>

lemma registry_inv_map_update:
  assumes "registry_inv s" "k \<in> dom (threadCpInfoMap s)"
  shows "registry_inv (s\<lparr>threadCpInfoMap := (threadCpInfoMap s)(k \<mapsto> r)\<rparr>)"
  using assms by (auto simp add: registry_inv_def registered_def)

lemma getThreadCpInfo_inv:
  assumes inv: "registry_inv s"
    and ok: "getThreadCpInfo threadId clk s = Inr (key, r, s')"
  shows "registry_inv s' \<and> key \<in> dom (threadCpInfoMap s')"
proof (cases "numThreads s = 0")
  case multi: False
  show ?thesis
  proof (cases "threadCpInfoMap s threadId")
    case None
    with multi ok have reg: "register_thread threadId clk s = Inr s'" and key: "key = threadId"
      by (auto simp: getThreadCpInfo_def split: sum.splits)
    from reg have "threadId \<in> dom (threadCpInfoMap s')"
      by (auto simp: register_thread_def split: sum.splits)
    with register_thread_inv [OF inv None reg] key show ?thesis by simp
  next
    case (Some r0)
    with multi ok inv show ?thesis by (auto simp add: getThreadCpInfo_def)
  qed
next
  case single: True
  show ?thesis
  proof (cases "threadCpInfoMap s = Map.empty")
    case True
    with single ok have lt: "unat (threadIdCounter s) < length (threadIdVector s)"
      and s': "s' = s\<lparr>threadCpInfoMap := (threadCpInfoMap s)(0 \<mapsto> ThreadCheckpointInfo_ctor clk),
                       threadIdVector := (threadIdVector s)[unat (threadIdCounter s) := 0],
                       threadIdCounter := threadIdCounter s + 1\<rparr>"
      and key: "key = 0"
      by (auto simp add: getThreadCpInfo_def vector_set_def split: if_splits)
    from inv True have "registered s = []" by (simp add: registry_inv_def)
    with lt have c: "threadIdCounter s = 0"
      by (auto simp add: registered_def unat_eq_zero)
    with lt have "registered s' = [0]"
      by (cases "threadIdVector s") (simp_all add: registered_def s')
    with lt c key show ?thesis
      by (auto simp add: registry_inv_def s' Suc_le_eq)
  next
    case False
    with single ok inv show ?thesis
      by (auto simp add: getThreadCpInfo_def registry_inv_def registered_def
          split: option.splits)
  qed
qed

lemma checkpoint_inv:
  assumes inv: "registry_inv s" and ok: "checkpoint cp threadId clk now s = Inr s'"
  shows "registry_inv s'"
proof (cases "isActive s")
  case False
  with ok inv show ?thesis by (simp add: checkpoint_def)
next
  case True
  with ok obtain key r s1 r' where
    g: "getThreadCpInfo threadId clk s = Inr (key, r, s1)"
    and s': "s' = s1\<lparr>threadCpInfoMap := (threadCpInfoMap s1)(key \<mapsto> r')\<rparr>"
    by (auto simp add: checkpoint_def split: sum.splits)
  from getThreadCpInfo_inv [OF inv g] show ?thesis
    unfolding s' by (intro registry_inv_map_update) simp_all
qed

lemma checkpoint_calls_inv:
  "registry_inv s \<Longrightarrow> checkpoint_calls cs s = Inr s' \<Longrightarrow> registry_inv s'"
proof (induction cs arbitrary: s)
  case Nil
  then show ?case by simp
next
  case (Cons c cs)
  obtain cp threadId clk now where c: "c = (cp, threadId, clk, now)"
    by (cases c) auto
  with Cons.prems(2) obtain s1 where
    one: "checkpoint cp threadId clk now s = Inr s1" and rest: "checkpoint_calls cs s1 = Inr s'"
    by (auto split: sum.splits)
  from Cons.IH [OF checkpoint_inv [OF Cons.prems(1) one] rest] show ?case .
qed

subsection \<open>Capacity\<close>

text \<open>
  C3. The claim does not hold of the code: the index is written with \<open>operator[]\<close> at
  \<open>threadIdCounter\<close> and its storage is never grown. In a registry initialised for 2
  threads, the first calls of three distinct threads end in a write past the storage.
\<close>

theorem checkpoint_capacity_overflow:
  "checkpoint_calls [(0, 1, clk50, 100), (0, 2, clk50, 100), (0, 3, clk50, 100)]
     (Checkpoint_ctor 2 mem0) = Inl VectorIndexOutOfRange"
  by (simp add: eval_defs)

lemma checkpoint_new_thread_beyond_capacity:
  assumes "isActive s" "numThreads s \<noteq> 0" "threadCpInfoMap s threadId = None"
    "length (threadIdVector s) \<le> unat (threadIdCounter s)"
  shows "checkpoint cp threadId clk now s = Inl VectorIndexOutOfRange"
  using assms by (simp add: checkpoint_def getThreadCpInfo_def register_thread_def vector_set_def)


subsection \<open>Elapsed-time deltas\<close>

text \<open>
  C1. The claim does not hold of the code. Thread 7 registers at clock reading 50 and
  calls \<open>checkpoint(1)\<close> at 100 and again at 200: the deltas recorded sum to 50, not to
  the 150 between the creation stamp and the last call, because the second call reads the
  previous timestamp from the slot it has just overwritten. For the same reason a first
  call \<open>checkpoint(0)\<close> at 100 records the delta 0.
\<close>

theorem checkpoint_same_id_twice_loses_delta:
  "map_option totalElapsed
     (record_of (checkpoint_calls [(1, 7, clk50, 100), (1, 7, clk50, 200)] (Checkpoint_ctor 2 mem0)) 7)
     = Some 50
   \<and> map_option creationCycles
     (record_of (checkpoint_calls [(1, 7, clk50, 100), (1, 7, clk50, 200)] (Checkpoint_ctor 2 mem0)) 7)
     = Some 50
   \<and> map_option totalElapsed
     (record_of (checkpoint_calls [(0, 7, clk50, 100)] (Checkpoint_ctor 2 mem0)) 7)
     = Some 0"
  by (simp add: eval_defs record_of_def totalElapsed_def upt_10)


text \<open>
  What one call adds: the clock time since the previous call when its id differs from the
  id of the previous call, and nothing when the two ids are equal. So the deltas of a
  thread telescope exactly over the runs in which no call repeats the id of the call before
  it (the first call counting as preceded by id 0), and then from the timestamp of slot 0
  as constructed.
\<close>

lemma sum_list_update_word:
  "i < length xs \<Longrightarrow> sum_list (xs[i := x]) = sum_list xs - xs ! i + (x :: uint64_t)"
proof (induction xs arbitrary: i)
  case Nil
  then show ?case by simp
next
  case (Cons y ys)
  then show ?case by (cases i) simp_all
qed

lemma store_deltas_elapsed:
  assumes cp: "0 \<le> cp" "cp < int MAX_CHECKPOINT"
    and last: "unat (lastCheckpointHit r) < MAX_CHECKPOINT"
    and len: "length (checkpoints r) = MAX_CHECKPOINT"
  shows "\<exists>r'. store_deltas cp now r = Inr r'
           \<and> totalElapsed r' = totalElapsed r
                + (if nat cp = unat (lastCheckpointHit r) then 0
                   else now - previousCycles (checkpoints r ! unat (lastCheckpointHit r)))
           \<and> previousCycles (checkpoints r' ! nat cp) = now
           \<and> unat (lastCheckpointHit r') = nat cp
           \<and> length (checkpoints r') = MAX_CHECKPOINT"
proof -
  from cp len have i: "nat cp < length (checkpoints r)" by simp
  from cp last show ?thesis
    using i len
    by (simp add: store_deltas_def Let_def totalElapsed_def unat_word_of_int_id
        map_update sum_list_update_word)
qed


lemma store_deltas_calls_telescope:
  assumes "\<forall>c \<in> set cs. 0 \<le> fst c \<and> fst c < int MAX_CHECKPOINT"
    and "unat (lastCheckpointHit r) < MAX_CHECKPOINT"
    and "length (checkpoints r) = MAX_CHECKPOINT"
    and "distinct_adj (unat (lastCheckpointHit r) # map (\<lambda>c. nat (fst c)) cs)"
  shows "\<exists>r'. store_deltas_calls cs r = Inr r'
           \<and> totalElapsed r' = totalElapsed r
                + (if cs = [] then 0
                   else snd (last cs) - previousCycles (checkpoints r ! unat (lastCheckpointHit r)))"
  using assms
proof (induction cs arbitrary: r)
  case Nil
  then show ?case by simp
next
  case (Cons c cs)
  obtain cp now where c: "c = (cp, now)" by (cases c)
  with Cons.prems have cp: "0 \<le> cp" "cp < int MAX_CHECKPOINT"
    and differ: "nat cp \<noteq> unat (lastCheckpointHit r)"
    by auto
  from store_deltas_elapsed [OF cp Cons.prems(2,3), of now] differ obtain r1 where
    one: "store_deltas cp now r = Inr r1"
    and el: "totalElapsed r1 = totalElapsed r
                + (now - previousCycles (checkpoints r ! unat (lastCheckpointHit r)))"
    and prev: "previousCycles (checkpoints r1 ! nat cp) = now"
    and last1: "unat (lastCheckpointHit r1) = nat cp"
    and len1: "length (checkpoints r1) = MAX_CHECKPOINT"
    by auto
  from Cons.prems(1) have ids: "\<forall>c \<in> set cs. 0 \<le> fst c \<and> fst c < int MAX_CHECKPOINT"
    by simp
  from cp last1 have l1: "unat (lastCheckpointHit r1) < MAX_CHECKPOINT" by simp
  from Cons.prems(4) c last1
  have adj: "distinct_adj (unat (lastCheckpointHit r1) # map (\<lambda>c. nat (fst c)) cs)"
    by simp
  from Cons.IH [OF ids l1 len1 adj] obtain r' where
    rest: "store_deltas_calls cs r1 = Inr r'"
    and el': "totalElapsed r' = totalElapsed r1
                + (if cs = [] then 0
                   else snd (last cs) - previousCycles (checkpoints r1 ! unat (lastCheckpointHit r1)))"
    by blast
  from one rest c have "store_deltas_calls (c # cs) r = Inr r'" by simp
  moreover from el el' prev last1 c
  have "totalElapsed r' = totalElapsed r
                + (snd (last (c # cs)) - previousCycles (checkpoints r ! unat (lastCheckpointHit r)))"
    by simp
  ultimately show ?case by simp
qed

subsection \<open>Initialisation\<close>

text \<open>
  C4, as stated, fails in its last part: \<open>initialize\<close> assigns the locking flag before it
  tests the instance pointer, so a second call changes the flag in effect.
\<close>

theorem second_initialize_changes_locking_counterexample:
  "instancePtr (initialize 32 True mem0 globals_init) = Some 1
   \<and> useLocking (initialize 32 True mem0 globals_init) = True
   \<and> useLocking (initialize 32 False mem0 (initialize 32 True mem0 globals_init)) = False"
  by (simp add: initialize_def globals_init_def Let_def)


text \<open>
  C4, amended. Calling \<open>initialize\<close> a second time without an intervening \<open>destroy\<close>
  creates no second registry (the heap of registries is unchanged), \<open>instance()\<close> returns
  the same handle before and after the second call, and the only effect of the second call
  is that the locking flag takes the value of its \<open>useLocking\<close> argument.
\<close>

theorem initialize_twice:
  assumes "instancePtr g = Some h"
  shows "initialize n locking mem g = g\<lparr>useLocking := locking\<rparr>
         \<and> objects (initialize n locking mem g) = objects g
         \<and> fst (instance_of mem g) = Some h
         \<and> fst (instance_of mem (initialize n locking mem g)) = Some h"
  using assms by (simp add: initialize_def instance_of_def Let_def)

theorem initialize_twice_witness:
  "instancePtr (initialize 32 True mem0 globals_init) = Some 1
   \<and> initialize 8 False mem0 (initialize 32 True mem0 globals_init)
       = (initialize 32 True mem0 globals_init)\<lparr>useLocking := False\<rparr>
   \<and> fst (instance_of mem0 (initialize 8 False mem0 (initialize 32 True mem0 globals_init))) = Some 1"
proof -
  have h: "instancePtr (initialize 32 True mem0 globals_init) = Some 1"
    by (simp add: initialize_def globals_init_def Let_def)
  note t = initialize_twice [OF h, of 8 False mem0]
  from t have a: "initialize 8 False mem0 (initialize 32 True mem0 globals_init)
       = (initialize 32 True mem0 globals_init)\<lparr>useLocking := False\<rparr>"
    by (rule conjunct1)
  from t have b: "fst (instance_of mem0 (initialize 8 False mem0 (initialize 32 True mem0 globals_init))) = Some 1"
    by blast
  from h a b show ?thesis by blast
qed


subsection \<open>Single-threaded mode\<close>

lemma store_deltas_ok:
  assumes "0 \<le> cp" "cp < int MAX_CHECKPOINT" "unat (lastCheckpointHit r) < MAX_CHECKPOINT"
  shows "\<exists>r'. store_deltas cp now r = Inr r' \<and> unat (lastCheckpointHit r') < MAX_CHECKPOINT"
  using assms by (simp add: store_deltas_def Let_def unat_word_of_int_id)

lemma checkpoint_single_first:
  assumes "0 \<le> cp" "cp < int MAX_CHECKPOINT"
  shows "\<exists>s'. checkpoint cp threadId clk now (Checkpoint_ctor 0 mem) = Inr s' \<and> single_record s'"
proof -
  let ?r = "ThreadCheckpointInfo_ctor clk"
  have "unat (lastCheckpointHit ?r) < MAX_CHECKPOINT"
    by (simp add: ThreadCheckpointInfo_ctor_def MAX_CHECKPOINT_def)
  from store_deltas_ok [OF assms this] obtain r' where
    r': "store_deltas cp now ?r = Inr r'" "unat (lastCheckpointHit r') < MAX_CHECKPOINT"
    by blast
  then show ?thesis
    by (simp add: checkpoint_def getThreadCpInfo_def Checkpoint_ctor_def vector_set_def
        single_record_def registered_def)
qed

lemma checkpoint_single_next:
  assumes "single_record s" "0 \<le> cp" "cp < int MAX_CHECKPOINT"
  shows "\<exists>s'. checkpoint cp threadId clk now s = Inr s' \<and> single_record s'"
proof -
  from assms(1) obtain r where r: "threadCpInfoMap s 0 = Some r"
    "unat (lastCheckpointHit r) < MAX_CHECKPOINT"
    by (auto simp: single_record_def split: option.splits)
  from assms(1) have ne: "threadCpInfoMap s \<noteq> Map.empty"
    using r by auto
  from store_deltas_ok [OF assms(2,3) r(2)] obtain r' where
    r': "store_deltas cp now r = Inr r'" "unat (lastCheckpointHit r') < MAX_CHECKPOINT"
    by blast
  with assms(1) r ne show ?thesis
    by (auto simp add: checkpoint_def getThreadCpInfo_def single_record_def registered_def)
qed

lemma checkpoint_calls_single:
  assumes "single_record s" "\<forall>c \<in> set cs. valid_id c"
  shows "\<exists>s'. checkpoint_calls cs s = Inr s' \<and> single_record s'"
  using assms
proof (induction cs arbitrary: s)
  case Nil
  then show ?case by simp
next
  case (Cons c cs)
  obtain cp threadId clk now where c: "c = (cp, threadId, clk, now)"
    by (cases c) auto
  with Cons.prems have "0 \<le> cp" "cp < int MAX_CHECKPOINT"
    by (simp_all add: valid_id_def)
  from checkpoint_single_next [OF Cons.prems(1) this]
  obtain s1 where s1: "checkpoint cp threadId clk now s = Inr s1" "single_record s1"
    by blast
  from Cons.IH [OF s1(2)] Cons.prems(2) s1(1) c show ?case by simp
qed

lemma checkpoint_thread_irrelevant:
  "numThreads s = 0 \<Longrightarrow> checkpoint cp threadId clk now s = checkpoint cp t clk now s"
  by (simp add: checkpoint_def getThreadCpInfo_def)

lemma checkpoint_numThreads:
  "checkpoint cp threadId clk now s = Inr s' \<Longrightarrow> numThreads s' = numThreads s"
  by (auto simp add: checkpoint_def getThreadCpInfo_def register_thread_def
      split: if_splits sum.splits option.splits)

lemma checkpoint_calls_thread_irrelevant:
  "numThreads s = 0 \<Longrightarrow> checkpoint_calls (map (as_thread t) cs) s = checkpoint_calls cs s"
proof (induction cs arbitrary: s)
  case Nil
  then show ?case by simp
next
  case (Cons c cs)
  obtain cp threadId clk now where c: "c = (cp, threadId, clk, now)"
    by (cases c) auto
  have same: "checkpoint cp t clk now s = checkpoint cp threadId clk now s"
    using Cons.prems by (simp add: checkpoint_thread_irrelevant [of s cp t])
  show ?case
  proof (cases "checkpoint cp threadId clk now s")
    case (Inl f)
    with same c show ?thesis by (simp add: as_thread_def)
  next
    case (Inr s1)
    with Cons.prems have "numThreads s1 = 0" by (simp add: checkpoint_numThreads)
    from Cons.IH [OF this] same c Inr show ?thesis by (simp add: as_thread_def)
  qed
qed

subsection \<open>The loops of the reporter\<close>

lemma last_hit_unroll:
  "last_hit cps n cur m =
     (if n = 0 then m else if iterations (cps ! cur) \<noteq> 0 then n else last_hit cps (n - 1) (n - 1) m)"
  by (cases n) simp_all

lemma filter_unused_unroll:
  "filter_unused cps n cur m =
     (if n = 0 then m else if iterations (cps ! cur) = 0 then filter_unused cps (n - 1) (n - 1) n else m)"
  by (cases n) simp_all

lemma fold_flag:
  "fold (\<lambda>i used. if P i then True else used) xs b \<longleftrightarrow> b \<or> (\<exists>i \<in> set xs. P i)"
  by (induction xs arbitrary: b) auto

lemma threadUsed_iff:
  "threadUsed cps \<longleftrightarrow> (\<exists>i < MAX_CHECKPOINT. iterations (cps ! i) \<noteq> 0)"
  by (auto simp add: threadUsed_def fold_flag)

lemma filter_unused_tail:
  assumes "\<forall>i. Suc n \<le> i \<and> i < N \<longrightarrow> iterations (cps ! i) = 0"
  shows "1 \<le> filter_unused cps n n (Suc n) \<and> filter_unused cps n n (Suc n) \<le> Suc n
         \<and> (\<forall>i. filter_unused cps n n (Suc n) \<le> i \<and> i < N \<longrightarrow> iterations (cps ! i) = 0)"
  using assms
proof (induction n)
  case 0
  then show ?case by simp
next
  case (Suc k)
  show ?case
  proof (cases "iterations (cps ! Suc k) = 0")
    case True
    with Suc.prems have "\<forall>i. Suc k \<le> i \<and> i < N \<longrightarrow> iterations (cps ! i) = 0"
      by (metis le_antisym not_less_eq_eq)
    from Suc.IH [OF this] True show ?thesis by auto
  next
    case False
    with Suc.prems show ?thesis by simp
  qed
qed

lemma filter_unused_top:
  defines "m \<equiv> \<lambda>cps. filter_unused cps MAX_CHECKPOINT (MAX_CHECKPOINT - 1) MAX_CHECKPOINT"
  shows "1 \<le> m cps \<and> m cps \<le> MAX_CHECKPOINT
         \<and> (\<forall>i. m cps \<le> i \<and> i < MAX_CHECKPOINT \<longrightarrow> iterations (cps ! i) = 0)"
proof -
  have step: "m cps = (if iterations (cps ! 9) = 0 then filter_unused cps 9 9 10 else 10)"
    unfolding m_def MAX_CHECKPOINT_def by (subst filter_unused_unroll) simp
  have "\<forall>i. Suc 9 \<le> i \<and> i < 10 \<longrightarrow> iterations (cps ! i) = 0" by auto
  from filter_unused_tail [OF this]
  have tail: "1 \<le> filter_unused cps 9 9 10 \<and> filter_unused cps 9 9 10 \<le> 10
         \<and> (\<forall>i. filter_unused cps 9 9 10 \<le> i \<and> i < 10 \<longrightarrow> iterations (cps ! i) = 0)"
    by simp
  show ?thesis
  proof (cases "iterations (cps ! 9) = 0")
    case True
    with step tail show ?thesis by (simp add: MAX_CHECKPOINT_def)
  next
    case False
    with step show ?thesis by (auto simp add: MAX_CHECKPOINT_def)
  qed
qed

lemma print_checkpoints_step:
  assumes "print_checkpoints thread cps (c # ids) (acc, hits) = (out, acc', hits')"
  obtains out' where
    "print_checkpoints thread cps ids
       (if iterations (cps ! c) \<noteq> 0 then acc(c := CheckpointInfo_add (acc c) (cps ! c)) else acc,
        if iterations (cps ! c) \<noteq> 0 then hits(c := hits c + 1) else hits) = (out', acc', hits')"
    "\<exists>n u a t. out = ThreadCheckpoint thread c n u a t # out'"
  using assms by (auto simp add: Let_def split: prod.splits)

lemma print_checkpoints_averages:
  assumes "distinct ids"
    and "print_checkpoints thread cps ids (acc, hits) = (out, acc', hits')"
  shows "acc' = (\<lambda>i. if i \<in> set ids \<and> iterations (cps ! i) \<noteq> 0
                      then CheckpointInfo_add (acc i) (cps ! i) else acc i)
         \<and> hits' = (\<lambda>i. if i \<in> set ids \<and> iterations (cps ! i) \<noteq> 0 then hits i + 1 else hits i)
         \<and> filter is_WeightedAverage out = []"
  using assms
proof (induction ids arbitrary: acc hits out)
  case Nil
  then show ?case by simp
next
  case (Cons c ids)
  from Cons.prems(2) obtain out' where
    rest: "print_checkpoints thread cps ids
       (if iterations (cps ! c) \<noteq> 0 then acc(c := CheckpointInfo_add (acc c) (cps ! c)) else acc,
        if iterations (cps ! c) \<noteq> 0 then hits(c := hits c + 1) else hits) = (out', acc', hits')"
    and out: "\<exists>n u a t. out = ThreadCheckpoint thread c n u a t # out'"
    by (rule print_checkpoints_step)
  from Cons.prems(1) have d: "distinct ids" and c: "c \<notin> set ids" by simp_all
  note IH = Cons.IH [OF d rest]
  from out IH have "filter is_WeightedAverage out = []"
    by auto
  moreover from IH c have "acc' = (\<lambda>i. if i \<in> set (c # ids) \<and> iterations (cps ! i) \<noteq> 0
                      then CheckpointInfo_add (acc i) (cps ! i) else acc i)"
    by (auto simp add: fun_eq_iff)
  moreover from IH c have "hits' = (\<lambda>i. if i \<in> set (c # ids) \<and> iterations (cps ! i) \<noteq> 0
                      then hits i + 1 else hits i)"
    by (auto simp add: fun_eq_iff)
  ultimately show ?case by simp
qed

lemma registered_in_map:
  assumes "registry_inv s" "thread < unat (threadIdCounter s)"
  shows "thread < length (threadIdVector s)"
    and "\<exists>r. threadCpInfoMap s (threadIdVector s ! thread) = Some r"
proof -
  from assms show len: "thread < length (threadIdVector s)"
    by (simp add: registry_inv_def)
  from assms len have "threadIdVector s ! thread \<in> set (registered s)"
    by (auto simp add: registered_def in_set_conv_nth intro!: exI [of _ thread])
  with assms(1) show "\<exists>r. threadCpInfoMap s (threadIdVector s ! thread) = Some r"
    by (auto simp add: registry_inv_def)
qed

lemma dump_thread_inv:
  assumes inv: "registry_inv s" and t: "thread < unat (threadIdCounter s)"
  shows "\<exists>out. dump_thread clk thread (s, acc, hits) =
           (out, Inr (s,
              \<lambda>i. if i < MAX_CHECKPOINT \<and> contributes s i thread
                   then CheckpointInfo_add (acc i) (thread_slot s thread i) else acc i,
              \<lambda>i. if i < MAX_CHECKPOINT \<and> contributes s i thread then hits i + 1 else hits i))
         \<and> filter is_WeightedAverage out = []"
proof -
  from registered_in_map [OF inv t] obtain r where
    len: "thread < length (threadIdVector s)"
    and r: "threadCpInfoMap s (threadIdVector s ! thread) = Some r"
    by blast
  let ?cps = "checkpoints r"
  have slot: "\<And>i. thread_slot s thread i = ?cps ! i"
    by (simp add: thread_slot_def r)
  show ?thesis
  proof (cases "threadUsed ?cps")
    case False
    then have "\<And>i. i < MAX_CHECKPOINT \<Longrightarrow> iterations (?cps ! i) = 0"
      by (simp add: threadUsed_iff)
    then have "\<And>i. \<not> (i < MAX_CHECKPOINT \<and> contributes s i thread)"
      by (simp add: contributes_def slot)
    with False len r show ?thesis
      by (auto simp add: dump_thread_def vector_get_def map_subscript_def fun_eq_iff)
  next
    case True
    let ?m = "filter_unused ?cps MAX_CHECKPOINT (MAX_CHECKPOINT - 1) MAX_CHECKPOINT"
    from filter_unused_top [of ?cps] have m: "?m \<le> MAX_CHECKPOINT"
      and tail: "\<And>i. ?m \<le> i \<Longrightarrow> i < MAX_CHECKPOINT \<Longrightarrow> iterations (?cps ! i) = 0"
      by simp_all
    obtain out acc' hits' where
      pc: "print_checkpoints thread ?cps [0..<?m] (acc, hits) = (out, acc', hits')"
      by (metis prod_cases3)
    from print_checkpoints_averages [OF _ pc]
    have acc': "acc' = (\<lambda>i. if i \<in> set [0..<?m] \<and> iterations (?cps ! i) \<noteq> 0
                      then CheckpointInfo_add (acc i) (?cps ! i) else acc i)"
      and hits': "hits' = (\<lambda>i. if i \<in> set [0..<?m] \<and> iterations (?cps ! i) \<noteq> 0
                      then hits i + 1 else hits i)"
      and out: "filter is_WeightedAverage out = []"
      by simp_all
    have cond: "\<And>i. (i \<in> set [0..<?m] \<and> iterations (?cps ! i) \<noteq> 0)
                  \<longleftrightarrow> (i < MAX_CHECKPOINT \<and> contributes s i thread)"
      using m tail by (auto simp add: contributes_def slot) (meson not_le)
    have acc_eq: "acc' = (\<lambda>i. if i < MAX_CHECKPOINT \<and> contributes s i thread
                   then CheckpointInfo_add (acc i) (thread_slot s thread i) else acc i)"
      unfolding acc' cond slot by (rule refl)
    have hits_eq: "hits' = (\<lambda>i. if i < MAX_CHECKPOINT \<and> contributes s i thread
                   then hits i + 1 else hits i)"
      unfolding hits' cond by (rule refl)
    from True len r pc
    have "dump_thread clk thread (s, acc, hits) = (out @ [EndOfThread], Inr (s, acc', hits'))"
      by (simp add: dump_thread_def vector_get_def map_subscript_def Let_def)
    with out show ?thesis
      unfolding acc_eq hits_eq by simp
  qed
qed

lemma dump_threads_inv:
  assumes inv: "registry_inv s" and ts: "\<forall>t \<in> set ts. t < unat (threadIdCounter s)"
  shows "\<exists>out acc' hits'. dump_threads clk ts (s, acc, hits) = (out, Inr (s, acc', hits'))
         \<and> filter is_WeightedAverage out = []
         \<and> (\<forall>i < MAX_CHECKPOINT.
              iterations (acc' i) = iterations (acc i)
                + sum_list (map (\<lambda>t. iterations (thread_slot s t i)) (filter (contributes s i) ts))
            \<and> totalCycles (acc' i) = totalCycles (acc i)
                + sum_list (map (\<lambda>t. totalCycles (thread_slot s t i)) (filter (contributes s i) ts))
            \<and> hits' i = hits i + of_nat (length (filter (contributes s i) ts)))"
  using ts
proof (induction ts arbitrary: acc hits)
  case Nil
  then show ?case by simp
next
  case (Cons t ts)
  let ?acc1 = "\<lambda>i. if i < MAX_CHECKPOINT \<and> contributes s i t
                   then CheckpointInfo_add (acc i) (thread_slot s t i) else acc i"
  let ?hits1 = "\<lambda>i. if i < MAX_CHECKPOINT \<and> contributes s i t then hits i + 1 else hits i"
  from Cons.prems have t: "t < unat (threadIdCounter s)"
    and rest: "\<forall>t \<in> set ts. t < unat (threadIdCounter s)" by simp_all
  from dump_thread_inv [OF inv t, of "clk (Suc t)" acc hits] obtain out1 where
    one: "dump_thread (clk (Suc t)) t (s, acc, hits) = (out1, Inr (s, ?acc1, ?hits1))"
    and out1: "filter is_WeightedAverage out1 = []" by blast
  from Cons.IH [OF rest, of ?acc1 ?hits1] obtain out2 acc' hits' where
    two: "dump_threads clk ts (s, ?acc1, ?hits1) = (out2, Inr (s, acc', hits'))"
    and out2: "filter is_WeightedAverage out2 = []"
    and sums: "\<forall>i < MAX_CHECKPOINT.
              iterations (acc' i) = iterations (?acc1 i)
                + sum_list (map (\<lambda>t. iterations (thread_slot s t i)) (filter (contributes s i) ts))
            \<and> totalCycles (acc' i) = totalCycles (?acc1 i)
                + sum_list (map (\<lambda>t. totalCycles (thread_slot s t i)) (filter (contributes s i) ts))
            \<and> hits' i = ?hits1 i + of_nat (length (filter (contributes s i) ts))"
    by blast
  have run: "dump_threads clk (t # ts) (s, acc, hits) = (out1 @ out2, Inr (s, acc', hits'))"
    using one two by simp
  have "\<forall>i < MAX_CHECKPOINT.
              iterations (acc' i) = iterations (acc i)
                + sum_list (map (\<lambda>t. iterations (thread_slot s t i)) (filter (contributes s i) (t # ts)))
            \<and> totalCycles (acc' i) = totalCycles (acc i)
                + sum_list (map (\<lambda>t. totalCycles (thread_slot s t i)) (filter (contributes s i) (t # ts)))
            \<and> hits' i = hits i + of_nat (length (filter (contributes s i) (t # ts)))"
    using sums by (auto simp add: CheckpointInfo_add_def ac_simps)
  with run out1 out2 show ?case by simp
qed

lemma dump_averages_defined:
  assumes "\<forall>i \<in> set ids. 1 < hits i \<longrightarrow> iterations (acc i) div ucast (hits i) \<noteq> 0"
  shows "dump_averages ids (acc, hits) =
           (map (average_line (acc, hits)) (filter (\<lambda>i. 1 < hits i) ids), Inr ())"
  using assms
  by (induction ids) (auto simp add: average_line_def Let_def split: prod.splits)

lemma throughput_threads_faults:
  "throughput_threads clk m ts s = (out, res) \<Longrightarrow>
     res \<noteq> Inl DivisionByZero \<and> filter is_WeightedAverage out = []"
proof (induction ts arbitrary: s out res)
  case Nil
  then show ?case by auto
next
  case (Cons t ts)
  then show ?case
    by (auto simp add: vector_get_def Let_def split: if_splits prod.splits)
qed

lemma dumpThroughput_faults:
  "dumpThroughput clk s = (out, res) \<Longrightarrow>
     res \<noteq> Inl DivisionByZero \<and> filter is_WeightedAverage out = []"
  by (auto simp add: dumpThroughput_def vector_get_def Let_def
      split: if_splits prod.splits sum.splits dest: throughput_threads_faults)

lemma dump_threadIds_faults:
  "dump_threadIds ids s = (out, res) \<Longrightarrow>
     res \<noteq> Inl DivisionByZero \<and> filter is_WeightedAverage out = []"
proof (induction ids arbitrary: out res)
  case Nil
  then show ?case by auto
next
  case (Cons i ids)
  then show ?case
    by (auto simp add: vector_get_def split: if_splits prod.splits)
qed

lemma map_subscript_present:
  "threadCpInfoMap s k = Some r \<Longrightarrow> map_subscript k clk s = (r, s)"
  by (simp add: map_subscript_def)

lemma throughput_threads_inv:
  assumes "registry_inv s" "\<forall>t \<in> set ts. t < unat (threadIdCounter s)"
    "throughput_threads clk m ts s = (out, Inr s')"
  shows "s' = s"
  using assms(2,3)
proof (induction ts arbitrary: out)
  case Nil
  then show ?case by simp
next
  case (Cons t ts)
  from Cons.prems(1) have t: "t < unat (threadIdCounter s)" by simp
  from registered_in_map [OF assms(1) t] obtain r where
    len: "t < length (threadIdVector s)"
    and r: "threadCpInfoMap s (threadIdVector s ! t) = Some r" by blast
  from Cons.prems(2) len r obtain out' where
    "throughput_threads clk m ts s = (out', Inr s')"
    by (auto simp add: vector_get_def map_subscript_present Let_def
        split: if_splits prod.splits)
  with Cons.IH Cons.prems(1) show ?case by simp
qed

lemma dumpThroughput_inv:
  assumes "registry_inv s" "threadIdCounter s \<noteq> 0" "dumpThroughput clk s = (out, Inr s')"
  shows "s' = s"
proof -
  from assms(2) have t: "0 < unat (threadIdCounter s)"
    by (simp add: unat_gt_0)
  from registered_in_map [OF assms(1) t] obtain r where
    len: "0 < length (threadIdVector s)"
    and r: "threadCpInfoMap s (threadIdVector s ! 0) = Some r" by blast
  let ?m = "last_hit (checkpoints r) MAX_CHECKPOINT (MAX_CHECKPOINT - 1) MAX_CHECKPOINT"
  from assms(3) len r obtain out' where
    "throughput_threads clk ?m [0..<unat (threadIdCounter s)] s = (out', Inr s')"
    by (auto simp add: dumpThroughput_def vector_get_def map_subscript_present Let_def
        split: prod.splits sum.splits)
  from throughput_threads_inv [OF assms(1) _ this] show ?thesis by simp
qed


subsection \<open>Sums of iteration counts\<close>

lemma unat_sum_list_fit:
  "sum_list (map (\<lambda>x. unat (f x)) xs) < 2 ^ 64 \<Longrightarrow>
     unat (sum_list (map f xs) :: uint64_t) = sum_list (map (\<lambda>x. unat (f x)) xs)"
proof (induction xs)
  case Nil
  then show ?case by simp
next
  case (Cons x xs)
  then have rest: "unat (sum_list (map f xs)) = sum_list (map (\<lambda>x. unat (f x)) xs)"
    by simp
  with Cons.prems have "unat (f x) + unat (sum_list (map f xs)) < 2 ^ LENGTH(64)"
    by simp
  then have "unat (f x + sum_list (map f xs)) = unat (f x) + unat (sum_list (map f xs))"
    by (simp only: unat_add_lem)
  with rest show ?case by simp
qed

lemma length_le_sum_unat:
  "\<forall>x \<in> set xs. f x \<noteq> (0 :: uint64_t) \<Longrightarrow> length xs \<le> sum_list (map (\<lambda>x. unat (f x)) xs)"
proof (induction xs)
  case Nil
  then show ?case by simp
next
  case (Cons x xs)
  then have "0 < unat (f x)" by (simp add: unat_gt_0)
  with Cons show ?case by simp
qed

lemma contributing_length: "length (contributing s i) \<le> unat (threadIdCounter s)"
  unfolding contributing_def by (rule order_trans [OF length_filter_le]) simp

lemma hits_unat: "unat (of_nat (length (contributing s i)) :: uint32_t) = length (contributing s i)"
  by (rule le_unat_uoi [OF contributing_length])

lemma hits_ucast:
  "(ucast (of_nat (length (contributing s i)) :: uint32_t) :: uint64_t)
     = of_nat (length (contributing s i))"
proof -
  have "unat (threadIdCounter s) < 2 ^ 32"
    using unsigned_less [of "threadIdCounter s"] by simp
  with contributing_length [of s i] have "length (contributing s i) < 2 ^ 32"
    by (rule le_less_trans)
  then show ?thesis
    by (simp add: unsigned_of_nat take_bit_nat_eq_self)
qed

lemma hits_gt_one:
  "1 < (of_nat (length (contributing s i)) :: uint32_t) \<longleftrightarrow> 2 \<le> length (contributing s i)"
  by (auto simp add: word_less_nat_alt hits_unat)

lemma quotient_nonzero:
  assumes fit: "sum_list (map (\<lambda>t. unat (iterations (thread_slot s t i))) (contributing s i)) < 2 ^ 64"
    and two: "2 \<le> length (contributing s i)"
  shows "sum_list (map (\<lambda>t. iterations (thread_slot s t i)) (contributing s i))
           div of_nat (length (contributing s i)) \<noteq> (0 :: uint64_t)"
proof -
  let ?xs = "contributing s i"
  let ?S = "sum_list (map (\<lambda>t. iterations (thread_slot s t i)) ?xs)"
  have "\<forall>t \<in> set ?xs. iterations (thread_slot s t i) \<noteq> 0"
    by (simp add: contributing_def contributes_def)
  from length_le_sum_unat [OF this]
  have le: "length ?xs \<le> sum_list (map (\<lambda>t. unat (iterations (thread_slot s t i))) ?xs)" .
  from unat_sum_list_fit [OF fit] have S: "unat ?S = sum_list (map (\<lambda>t. unat (iterations (thread_slot s t i))) ?xs)" .
  have n: "unat (of_nat (length ?xs) :: uint64_t) = length ?xs"
    using le fit by (simp add: unat_of_nat)
  have "unat (?S div of_nat (length ?xs)) = unat ?S div length ?xs"
    by (simp add: unat_div n)
  also have "\<dots> \<ge> 1"
    using le S two by (auto simp add: div_greater_zero_iff Suc_le_eq)
  finally show ?thesis by (auto simp add: unat_eq_zero)
qed


subsection \<open>The sections of the report\<close>

lemma dump_threads_all:
  assumes inv: "registry_inv s"
  obtains out1 acc' hits' where
    "dump_threads clk [0..<unat (threadIdCounter s)]
       (s, \<lambda>i. CheckpointInfo_ctor (clk 0 i), \<lambda>i. 0) = (out1, Inr (s, acc', hits'))"
    "filter is_WeightedAverage out1 = []"
    "\<And>i. i < MAX_CHECKPOINT \<Longrightarrow>
       iterations (acc' i) = sum_list (map (\<lambda>t. iterations (thread_slot s t i)) (contributing s i))"
    "\<And>i. i < MAX_CHECKPOINT \<Longrightarrow>
       totalCycles (acc' i) = sum_list (map (\<lambda>t. totalCycles (thread_slot s t i)) (contributing s i))"
    "\<And>i. i < MAX_CHECKPOINT \<Longrightarrow> hits' i = of_nat (length (contributing s i))"
proof -
  have "\<forall>t \<in> set [0..<unat (threadIdCounter s)]. t < unat (threadIdCounter s)" by simp
  from dump_threads_inv [OF inv this, of clk "\<lambda>i. CheckpointInfo_ctor (clk 0 i)" "\<lambda>i. 0"]
  obtain out1 acc' hits' where
    "dump_threads clk [0..<unat (threadIdCounter s)]
       (s, \<lambda>i. CheckpointInfo_ctor (clk 0 i), \<lambda>i. 0) = (out1, Inr (s, acc', hits'))"
    "filter is_WeightedAverage out1 = []"
    "\<forall>i < MAX_CHECKPOINT.
       iterations (acc' i) = iterations (CheckpointInfo_ctor (clk 0 i))
         + sum_list (map (\<lambda>t. iterations (thread_slot s t i))
             (filter (contributes s i) [0..<unat (threadIdCounter s)]))
       \<and> totalCycles (acc' i) = totalCycles (CheckpointInfo_ctor (clk 0 i))
         + sum_list (map (\<lambda>t. totalCycles (thread_slot s t i))
             (filter (contributes s i) [0..<unat (threadIdCounter s)]))
       \<and> hits' i = 0 + of_nat (length (filter (contributes s i) [0..<unat (threadIdCounter s)]))"
    by blast
  then show ?thesis
    by (intro that [of out1 acc' hits']) (simp_all add: contributing_def CheckpointInfo_ctor_def)
qed

lemma is_WeightedAverage_weighted_average [simp]:
  "is_WeightedAverage (weighted_average s i)"
  by (simp add: weighted_average_def Let_def split: prod.splits)

lemma averages_section:
  assumes fit: "iterations_fit s"
    and its: "\<And>i. i < MAX_CHECKPOINT \<Longrightarrow>
       iterations (acc' i) = sum_list (map (\<lambda>t. iterations (thread_slot s t i)) (contributing s i))"
    and tot: "\<And>i. i < MAX_CHECKPOINT \<Longrightarrow>
       totalCycles (acc' i) = sum_list (map (\<lambda>t. totalCycles (thread_slot s t i)) (contributing s i))"
    and hits: "\<And>i. i < MAX_CHECKPOINT \<Longrightarrow> hits' i = of_nat (length (contributing s i))"
  shows "dump_averages [0..<MAX_CHECKPOINT] (acc', hits') =
           (map (weighted_average s)
              (filter (\<lambda>i. 2 \<le> length (contributing s i)) [0..<MAX_CHECKPOINT]), Inr ())"
proof -
  have defined: "\<forall>i \<in> set [0..<MAX_CHECKPOINT].
      1 < hits' i \<longrightarrow> iterations (acc' i) div ucast (hits' i) \<noteq> 0"
  proof (intro ballI impI)
    fix i assume "i \<in> set [0..<MAX_CHECKPOINT]" and gt: "1 < hits' i"
    then have i: "i < MAX_CHECKPOINT" by simp
    from fit i have "sum_list (map (\<lambda>t. unat (iterations (thread_slot s t i))) (contributing s i)) < 2 ^ 64"
      by (simp add: iterations_fit_def list_all_iff)
    moreover from gt have "2 \<le> length (contributing s i)"
      by (simp add: hits [OF i] hits_gt_one)
    ultimately show "iterations (acc' i) div ucast (hits' i) \<noteq> 0"
      by (simp add: its [OF i] hits [OF i] hits_ucast quotient_nonzero)
  qed
  have sel: "filter (\<lambda>i. 1 < hits' i) [0..<MAX_CHECKPOINT]
      = filter (\<lambda>i. 2 \<le> length (contributing s i)) [0..<MAX_CHECKPOINT]"
    by (rule filter_cong) (simp_all add: hits hits_gt_one)
  have line: "\<And>i. i < MAX_CHECKPOINT \<Longrightarrow> average_line (acc', hits') i = weighted_average s i"
    by (simp add: average_line_def weighted_average_def its tot hits hits_ucast Let_def)
  have "map (average_line (acc', hits')) (filter (\<lambda>i. 1 < hits' i) [0..<MAX_CHECKPOINT])
      = map (weighted_average s) (filter (\<lambda>i. 2 \<le> length (contributing s i)) [0..<MAX_CHECKPOINT])"
    unfolding sel by (rule map_cong) (simp_all add: line)
  with dump_averages_defined [OF defined] show ?thesis by simp
qed

lemma dump_sections:
  assumes T: "dump_threads clk [0..<unat (threadIdCounter s)]
       (s, \<lambda>i. CheckpointInfo_ctor (clk 0 i), \<lambda>i. 0) = (out1, Inr (s1, avgs))"
    and A: "(if a then dump_averages [0..<MAX_CHECKPOINT] avgs else ([], Inr ())) = (out2, Inr ())"
  shows "\<exists>out3 res. dump clk clkT a tp ids s =
             ([NumberOfThreads (numThreads s) (threadIdCounter s), TimerResolution]
                @ out1 @ out2 @ out3, res)
           \<and> filter is_WeightedAverage out3 = []
           \<and> res \<noteq> Inl DivisionByZero
           \<and> (\<forall>s'. res = Inr s' \<longrightarrow>
                 (if tp then \<exists>out. dumpThroughput clkT s1 = (out, Inr s') else s' = s1))"
proof -
  obtain o3 r3 where D3: "(if tp then dumpThroughput clkT s1 else ([], Inr s1)) = (o3, r3)"
    by (metis surj_pair)
  have o3: "filter is_WeightedAverage o3 = []" and r3: "r3 \<noteq> Inl DivisionByZero"
    using D3 dumpThroughput_faults [of clkT s1 o3 r3] by (auto split: if_splits)
  show ?thesis
  proof (cases r3)
    case (Inl f)
    with D3 T A o3 r3 show ?thesis
      by (simp add: dump_def Let_def)
  next
    case (Inr s2)
    obtain o4 r4 where D4: "(if ids
         then (case dump_threadIds [0..<unat (threadIdCounter s2)] s2 of
                 (out, res) \<Rightarrow> (ThreadIdsHeader (threadIdCounter s2) # out, res))
         else ([], Inr ())) = (o4, r4)"
      by (metis surj_pair)
    have o4: "filter is_WeightedAverage o4 = []" and r4: "r4 \<noteq> Inl DivisionByZero"
      using D4 dump_threadIds_faults [of "[0..<unat (threadIdCounter s2)]" s2]
      by (auto split: if_splits prod.splits)
    have s2: "if tp then \<exists>out. dumpThroughput clkT s1 = (out, Inr s2) else s2 = s1"
      using D3 Inr by (auto split: if_splits)
    show ?thesis
    proof (cases r4)
      case (Inl f)
      with D3 D4 T A o3 o4 r4 Inr show ?thesis
        by (simp add: dump_def Let_def)
    next
      case r4': (Inr u)
      with D3 D4 T A o3 o4 Inr s2 show ?thesis
        by (simp add: dump_def Let_def)
    qed
  qed
qed

lemma dump_sections_fault:
  assumes T: "dump_threads clk [0..<unat (threadIdCounter s)]
       (s, \<lambda>i. CheckpointInfo_ctor (clk 0 i), \<lambda>i. 0) = (out1, Inr (s1, avgs))"
    and A: "(if a then dump_averages [0..<MAX_CHECKPOINT] avgs else ([], Inr ())) = (out2, Inl f)"
  shows "dump clk clkT a tp ids s =
             ([NumberOfThreads (numThreads s) (threadIdCounter s), TimerResolution]
                @ out1 @ out2, Inl f)"
  using T A by (simp add: dump_def Let_def)

lemma dump_read_only:
  assumes inv: "registry_inv s" and some: "tp \<longrightarrow> threadIdCounter s \<noteq> 0"
    and ret: "snd (dump clk clkT a tp ids s) = Inr s'"
  shows "s' = s"
proof -
  obtain out1 acc' hits' where
    T: "dump_threads clk [0..<unat (threadIdCounter s)]
       (s, \<lambda>i. CheckpointInfo_ctor (clk 0 i), \<lambda>i. 0) = (out1, Inr (s, acc', hits'))"
    and out1: "filter is_WeightedAverage out1 = []"
    and its: "\<And>i. i < MAX_CHECKPOINT \<Longrightarrow>
       iterations (acc' i) = sum_list (map (\<lambda>t. iterations (thread_slot s t i)) (contributing s i))"
    and tot: "\<And>i. i < MAX_CHECKPOINT \<Longrightarrow>
       totalCycles (acc' i) = sum_list (map (\<lambda>t. totalCycles (thread_slot s t i)) (contributing s i))"
    and hits: "\<And>i. i < MAX_CHECKPOINT \<Longrightarrow> hits' i = of_nat (length (contributing s i))"
    by (rule dump_threads_all [OF inv, of clk]) (rule that)
  obtain out2 r2 where
    A: "(if a then dump_averages [0..<MAX_CHECKPOINT] (acc', hits') else ([], Inr ())) = (out2, r2)"
    by (metis surj_pair)
  show ?thesis
  proof (cases r2)
    case (Inl f)
    with dump_sections_fault [OF T, of a out2 f clkT tp ids] A ret show ?thesis by simp
  next
    case (Inr u)
    with A have "(if a then dump_averages [0..<MAX_CHECKPOINT] (acc', hits') else ([], Inr ()))
      = (out2, Inr ())" by simp
    from dump_sections [OF T this, of clkT tp ids] obtain out3 res where
      D: "dump clk clkT a tp ids s =
       ([NumberOfThreads (numThreads s) (threadIdCounter s), TimerResolution]
          @ out1 @ out2 @ out3, res)"
      and R: "\<forall>s'. res = Inr s' \<longrightarrow>
                 (if tp then \<exists>out. dumpThroughput clkT s = (out, Inr s') else s' = s)"
      by blast
    from ret D have "res = Inr s'" by simp
    with R have alt: "if tp then \<exists>out. dumpThroughput clkT s = (out, Inr s') else s' = s"
      by blast
    show ?thesis
    proof (cases tp)
      case True
      with alt obtain out where "dumpThroughput clkT s = (out, Inr s')" by auto
      moreover from True some have "threadIdCounter s \<noteq> 0" by simp
      ultimately show ?thesis by (rule dumpThroughput_inv [OF inv, rotated])
    next
      case False
      with alt show ?thesis by simp
    qed
  qed
qed


text \<open>
  C10. The claim does not hold of the code in the edge case it names. With no thread
  registered, \<open>dump\<close> with the throughput flag set runs \<open>dumpThroughput\<close>, which
  subscripts the thread map with cell 0 of the index, a cell no registration has written:
  the map subscript inserts a fresh record under whatever identity the cell holds, and
  \<open>dump\<close> returns with a thread map that is no longer empty.
\<close>

theorem dump_throughput_inserts_record:
  "threadCpInfoMap (Checkpoint_ctor 2 mem0) = Map.empty
   \<and> snd (dump clk50_sites clk50_sites False True False (Checkpoint_ctor 2 mem0))
       = Inr ((Checkpoint_ctor 2 mem0)\<lparr>threadCpInfoMap := [0 \<mapsto> ThreadCheckpointInfo_ctor clk50]\<rparr>)
   \<and> fst (dump clk50_sites clk50_sites False True False (Checkpoint_ctor 2 mem0))
       = [NumberOfThreads 2 0, TimerResolution, ThroughputHeader 10, TotalThroughput]"
  by (simp add: dump_def dumpThroughput_def map_subscript_def vector_get_def Checkpoint_ctor_def
      mem0_def clk50_sites_def ThreadCheckpointInfo_ctor_def CheckpointInfo_ctor_def
      MAX_CHECKPOINT_def upt_10 Let_def last_hit_unroll)


subsection \<open>Evaluation on the concrete registries\<close>

lemma busy_record_slots:
  "checkpoints (busy_record n t) ! 0 = \<lparr>iterations = n, totalCycles = t, previousCycles = 60\<rparr>"
  "0 < i \<Longrightarrow> i < MAX_CHECKPOINT \<Longrightarrow> checkpoints (busy_record n t) ! i = CheckpointInfo_ctor 50"
  by (simp_all add: busy_record_def MAX_CHECKPOINT_def nth_Cons')

lemma thread_slot_two:
  "thread_slot registry_two 0 i = checkpoints (busy_record 1 10) ! i"
  "thread_slot registry_two (Suc 0) i = checkpoints (busy_record 3 30) ! i"
  by (simp_all add: thread_slot_def registry_two_def)

lemma contributing_two:
  "contributing registry_two 0 = [0, 1]"
  "0 < i \<Longrightarrow> i < MAX_CHECKPOINT \<Longrightarrow> contributing registry_two i = []"
proof -
  have c: "unat (threadIdCounter registry_two) = 2" by (simp add: registry_two_def)
  show "contributing registry_two 0 = [0, 1]"
    by (simp add: contributing_def contributes_def c upt_2 thread_slot_two busy_record_slots)
  show "0 < i \<Longrightarrow> i < MAX_CHECKPOINT \<Longrightarrow> contributing registry_two i = []"
    by (simp add: contributing_def contributes_def c upt_2 thread_slot_two busy_record_slots
        CheckpointInfo_ctor_def)
qed

lemma registry_two_inv: "registry_inv registry_two"
  by (simp add: registry_inv_def registered_def registry_two_def)

lemma registry_two_fit: "iterations_fit registry_two"
  by (simp add: iterations_fit_def MAX_CHECKPOINT_def upt_10 contributing_two
      thread_slot_two busy_record_slots)

lemma weighted_two:
  "map (weighted_average registry_two)
     (filter (\<lambda>i. 2 \<le> length (contributing registry_two i)) [0..<MAX_CHECKPOINT])
   = [WeightedAverage 0 2 MICRO_SEC_STR 10 20]"
  by (simp add: MAX_CHECKPOINT_def upt_10 contributing_two weighted_average_def
      thread_slot_two busy_record_slots getTimeResolutionStr_def Let_def)

lemma thread_slot_wrap:
  "thread_slot registry_wrap 0 i = checkpoints (busy_record (2 ^ 63) 5) ! i"
  "thread_slot registry_wrap (Suc 0) i = checkpoints (busy_record (2 ^ 63) 5) ! i"
  by (simp_all add: thread_slot_def registry_wrap_def)

lemma contributing_wrap: "contributing registry_wrap 0 = [0, 1]"
proof -
  have c: "unat (threadIdCounter registry_wrap) = 2" by (simp add: registry_wrap_def)
  show ?thesis
    by (simp add: contributing_def contributes_def c upt_2 thread_slot_wrap busy_record_slots)
qed

lemma registry_wrap_inv: "registry_inv registry_wrap"
  by (simp add: registry_inv_def registered_def registry_wrap_def)

lemma dump_wrap:
  "\<exists>out1. dump clk clkT True tp ids registry_wrap =
     ([NumberOfThreads 2 2, TimerResolution] @ out1, Inl DivisionByZero)
     \<and> filter is_WeightedAverage out1 = []"
proof -
  obtain out1 acc' hits' where
    T: "dump_threads clk [0..<unat (threadIdCounter registry_wrap)]
       (registry_wrap, \<lambda>i. CheckpointInfo_ctor (clk 0 i), \<lambda>i. 0)
         = (out1, Inr (registry_wrap, acc', hits'))"
    and out1: "filter is_WeightedAverage out1 = []"
    and its: "\<And>i. i < MAX_CHECKPOINT \<Longrightarrow>
       iterations (acc' i) = sum_list (map (\<lambda>t. iterations (thread_slot registry_wrap t i))
         (contributing registry_wrap i))"
    and tot: "\<And>i. i < MAX_CHECKPOINT \<Longrightarrow>
       totalCycles (acc' i) = sum_list (map (\<lambda>t. totalCycles (thread_slot registry_wrap t i))
         (contributing registry_wrap i))"
    and hits: "\<And>i. i < MAX_CHECKPOINT \<Longrightarrow> hits' i = of_nat (length (contributing registry_wrap i))"
    by (rule dump_threads_all [OF registry_wrap_inv, of clk]) (rule that)
  have zero: "0 < MAX_CHECKPOINT" by (simp add: MAX_CHECKPOINT_def)
  have i0: "iterations (acc' 0) = 0"
    by (simp add: its [OF zero] contributing_wrap thread_slot_wrap busy_record_slots)
  have h0: "hits' 0 = 2"
    by (simp add: hits [OF zero] contributing_wrap)
  have "dump_averages [0..<MAX_CHECKPOINT] (acc', hits') = ([], Inl DivisionByZero)"
    by (simp add: MAX_CHECKPOINT_def upt_10 i0 h0)
  then have A: "(if True then dump_averages [0..<MAX_CHECKPOINT] (acc', hits') else ([], Inr ()))
      = ([], Inl DivisionByZero)" by simp
  from dump_sections_fault [OF T A, of clkT tp ids] out1 show ?thesis
    by (simp add: registry_wrap_def)
qed


subsection \<open>Weighted averages\<close>

lemma registry_back_reachable:
  "checkpoint_calls [(1, 1, clk100, 60), (1, 2, clk100, 60)] (Checkpoint_ctor 2 mem0)
     = Inr registry_back"
  by (simp add: eval_defs upt_10 upt_2 clk100_def mem0_def registry_back_def back_record_def
      CheckpointInfo_ctor_def ThreadCheckpointInfo_ctor_def Checkpoint_ctor_def MAX_CHECKPOINT_def
      store_deltas_def Let_def word_back replicate_8)


lemma dump_averages_lines:
  assumes "dump_averages ids (acc, hits) = (out, r)"
    and "WeightedAverage i n u a t \<in> set out"
  shows "i \<in> set ids \<and> 1 < hits i"
  using assms
proof (induction ids arbitrary: out r)
  case Nil
  then show ?case by simp
next
  case (Cons j rest)
  obtain out' r' where rest: "dump_averages rest (acc, hits) = (out', r')"
    by (metis surj_pair)
  show ?case
  proof (cases "1 < hits j")
    case False
    with Cons.prems rest have "out = out'" by simp
    with Cons.IH [OF rest] Cons.prems(2) show ?thesis by simp
  next
    case True
    show ?thesis
    proof (cases "iterations (acc j) div ucast (hits j) = 0")
      case z: True
      with True Cons.prems show ?thesis by (simp add: Let_def)
    next
      case nz: False
      with True Cons.prems(1) rest obtain l where
        out: "out = l # out'" and l: "l = average_line (acc, hits) j"
        by (auto simp add: Let_def average_line_def split: prod.splits)
      from l obtain n' u' a' t' where l': "l = WeightedAverage j n' u' a' t'"
        by (auto simp add: average_line_def Let_def split: prod.splits)
      from Cons.prems(2) out l' consider "i = j" | "WeightedAverage i n u a t \<in> set out'"
        by auto
      then show ?thesis
      proof cases
        case 1
        with True show ?thesis by simp
      next
        case 2
        from Cons.IH [OF rest 2] show ?thesis by simp
      qed
    qed
  qed
qed

lemma no_weighted_line:
  "filter is_WeightedAverage out = [] \<Longrightarrow> WeightedAverage i n u a t \<notin> set out"
  by (auto simp add: filter_empty_conv)

lemma dump_weighted_lines:
  assumes inv: "registry_inv s"
    and line: "WeightedAverage i n u a t \<in> set (fst (dump clk clkT av tp ids s))"
  shows "av \<and> i < MAX_CHECKPOINT \<and> 2 \<le> length (contributing s i)"
proof -
  obtain out1 acc' hits' where
    T: "dump_threads clk [0..<unat (threadIdCounter s)]
       (s, \<lambda>i. CheckpointInfo_ctor (clk 0 i), \<lambda>i. 0) = (out1, Inr (s, acc', hits'))"
    and out1: "filter is_WeightedAverage out1 = []"
    and hits: "\<And>i. i < MAX_CHECKPOINT \<Longrightarrow> hits' i = of_nat (length (contributing s i))"
    by (rule dump_threads_all [OF inv, of clk]) (rule that)
  obtain out2 r2 where
    A: "(if av then dump_averages [0..<MAX_CHECKPOINT] (acc', hits') else ([], Inr ())) = (out2, r2)"
    by (metis surj_pair)
  have "\<exists>out3. fst (dump clk clkT av tp ids s) =
           [NumberOfThreads (numThreads s) (threadIdCounter s), TimerResolution]
              @ out1 @ out2 @ out3 \<and> filter is_WeightedAverage out3 = []"
  proof (cases r2)
    case (Inl f)
    with A have "(if av then dump_averages [0..<MAX_CHECKPOINT] (acc', hits') else ([], Inr ()))
        = (out2, Inl f)" by simp
    from dump_sections_fault [OF T this, of clkT tp ids] show ?thesis by simp
  next
    case (Inr x)
    with A have "(if av then dump_averages [0..<MAX_CHECKPOINT] (acc', hits') else ([], Inr ()))
        = (out2, Inr ())" by simp
    from dump_sections [OF T this, of clkT tp ids] show ?thesis by auto
  qed
  then obtain out3 where
    out: "fst (dump clk clkT av tp ids s) =
           [NumberOfThreads (numThreads s) (threadIdCounter s), TimerResolution]
              @ out1 @ out2 @ out3"
    and out3: "filter is_WeightedAverage out3 = []"
    by blast
  from line out no_weighted_line [OF out1] no_weighted_line [OF out3]
  have in2: "WeightedAverage i n u a t \<in> set out2" by auto
  have av: av
  proof (rule ccontr)
    assume "\<not> av"
    with A have "out2 = []" by simp
    with in2 show False by simp
  qed
  with A have "dump_averages [0..<MAX_CHECKPOINT] (acc', hits') = (out2, r2)" by simp
  from dump_averages_lines [OF this in2] have i: "i < MAX_CHECKPOINT" and h: "1 < hits' i"
    by simp_all
  from h have "2 \<le> length (contributing s i)"
    by (simp add: hits [OF i] hits_gt_one)
  with av i show ?thesis by simp
qed

lemma word_of_unat: "unat (w :: uint64_t) = k \<Longrightarrow> w = of_nat k"
  by auto

lemma weighted_average_spec_eq:
  assumes fi: "sum_list (map (\<lambda>t. unat (iterations (thread_slot s t i))) (contributing s i)) < 2 ^ 64"
    and ft: "sum_list (map (\<lambda>t. unat (totalCycles (thread_slot s t i))) (contributing s i)) < 2 ^ 64"
  shows "weighted_average s i = weighted_average_spec s i"
proof -
  let ?xs = "contributing s i"
  let ?I = "sum_list (map (\<lambda>t. unat (iterations (thread_slot s t i))) ?xs)"
  let ?T = "sum_list (map (\<lambda>t. unat (totalCycles (thread_slot s t i))) ?xs)"
  let ?SI = "sum_list (map (\<lambda>t. iterations (thread_slot s t i)) ?xs)"
  let ?ST = "sum_list (map (\<lambda>t. totalCycles (thread_slot s t i)) ?xs)"
  let ?n = "length ?xs"
  have "\<forall>t \<in> set ?xs. iterations (thread_slot s t i) \<noteq> 0"
    by (simp add: contributing_def contributes_def)
  from length_le_sum_unat [OF this] have le: "?n \<le> ?I" .
  have n: "unat (of_nat ?n :: uint64_t) = ?n"
    using le fi by (simp add: unat_of_nat)
  have SI: "unat ?SI = ?I" by (rule unat_sum_list_fit [OF fi])
  have ST: "unat ?ST = ?T" by (rule unat_sum_list_fit [OF ft])
  have qi: "unat (?SI div of_nat ?n) = ?I div ?n"
    by (simp add: unat_div n SI)
  have qt: "unat (?ST div of_nat ?n) = ?T div ?n"
    by (simp add: unat_div n ST)
  have avg: "unat ((?ST div of_nat ?n) div (?SI div of_nat ?n)) = (?T div ?n) div (?I div ?n)"
    by (simp add: unat_div n SI ST)
  have wi: "?SI div of_nat ?n = of_nat (?I div ?n)"
    using qi by (rule word_of_unat)
  have wt: "?ST div of_nat ?n = of_nat (?T div ?n)"
    using qt by (rule word_of_unat)
  have wa: "(?ST div of_nat ?n) div (?SI div of_nat ?n) = of_nat ((?T div ?n) div (?I div ?n))"
    using avg by (rule word_of_unat)
  show ?thesis
    unfolding weighted_average_def weighted_average_spec_def Let_def
    using wa by (simp only: wi wt)
qed

lemma accumulated_quotients_fit:
  assumes fi: "sum_list (map (\<lambda>t. unat (iterations (thread_slot s t i))) (contributing s i)) < 2 ^ 64"
    and ft: "sum_list (map (\<lambda>t. unat (totalCycles (thread_slot s t i))) (contributing s i)) < 2 ^ 64"
  shows "unat (of_nat (sum_list (map (\<lambda>t. unat (iterations (thread_slot s t i))) (contributing s i))
                  div length (contributing s i)) :: uint64_t)
           = sum_list (map (\<lambda>t. unat (iterations (thread_slot s t i))) (contributing s i))
               div length (contributing s i)"
    and "unat (of_nat (sum_list (map (\<lambda>t. unat (totalCycles (thread_slot s t i))) (contributing s i))
                  div length (contributing s i)) :: uint64_t)
           = sum_list (map (\<lambda>t. unat (totalCycles (thread_slot s t i))) (contributing s i))
               div length (contributing s i)"
    and "unat (of_nat ((sum_list (map (\<lambda>t. unat (totalCycles (thread_slot s t i))) (contributing s i))
                   div length (contributing s i))
                 div (sum_list (map (\<lambda>t. unat (iterations (thread_slot s t i))) (contributing s i))
                   div length (contributing s i))) :: uint64_t)
           = (sum_list (map (\<lambda>t. unat (totalCycles (thread_slot s t i))) (contributing s i))
                   div length (contributing s i))
                 div (sum_list (map (\<lambda>t. unat (iterations (thread_slot s t i))) (contributing s i))
                   div length (contributing s i))"
proof -
  have le: "\<And>x k. x < (2 :: nat) ^ 64 \<Longrightarrow> unat (of_nat (x div k) :: uint64_t) = x div k"
  proof -
    fix x k :: nat assume "x < 2 ^ 64"
    moreover have "x div k \<le> x" by (rule div_le_dividend)
    ultimately have "x div k < 2 ^ 64" by (rule le_less_trans [rotated])
    then show "unat (of_nat (x div k) :: uint64_t) = x div k"
      by (simp add: unat_of_nat take_bit_nat_eq_self)
  qed
  show "unat (of_nat (sum_list (map (\<lambda>t. unat (iterations (thread_slot s t i))) (contributing s i))
                  div length (contributing s i)) :: uint64_t)
           = sum_list (map (\<lambda>t. unat (iterations (thread_slot s t i))) (contributing s i))
               div length (contributing s i)"
    by (rule le [OF fi])
  show "unat (of_nat (sum_list (map (\<lambda>t. unat (totalCycles (thread_slot s t i))) (contributing s i))
                  div length (contributing s i)) :: uint64_t)
           = sum_list (map (\<lambda>t. unat (totalCycles (thread_slot s t i))) (contributing s i))
               div length (contributing s i)"
    by (rule le [OF ft])
  have "sum_list (map (\<lambda>t. unat (totalCycles (thread_slot s t i))) (contributing s i))
          div length (contributing s i) < 2 ^ 64"
    using ft div_le_dividend by (rule le_less_trans [rotated])
  from le [OF this]
  show "unat (of_nat ((sum_list (map (\<lambda>t. unat (totalCycles (thread_slot s t i))) (contributing s i))
                   div length (contributing s i))
                 div (sum_list (map (\<lambda>t. unat (iterations (thread_slot s t i))) (contributing s i))
                   div length (contributing s i))) :: uint64_t)
           = (sum_list (map (\<lambda>t. unat (totalCycles (thread_slot s t i))) (contributing s i))
                   div length (contributing s i))
                 div (sum_list (map (\<lambda>t. unat (iterations (thread_slot s t i))) (contributing s i))
                   div length (contributing s i))" .
qed

lemma dump_weighted_averages_word:
  assumes inv: "registry_inv s" and fit: "iterations_fit s"
  shows "filter is_WeightedAverage (fst (dump clk clkT True tp ids s)) =
           map (weighted_average s)
             (filter (\<lambda>i. 2 \<le> length (contributing s i)) [0..<MAX_CHECKPOINT])"
proof -
  obtain out1 acc' hits' where
    T: "dump_threads clk [0..<unat (threadIdCounter s)]
       (s, \<lambda>i. CheckpointInfo_ctor (clk 0 i), \<lambda>i. 0) = (out1, Inr (s, acc', hits'))"
    and out1: "filter is_WeightedAverage out1 = []"
    and its: "\<And>i. i < MAX_CHECKPOINT \<Longrightarrow>
       iterations (acc' i) = sum_list (map (\<lambda>t. iterations (thread_slot s t i)) (contributing s i))"
    and tot: "\<And>i. i < MAX_CHECKPOINT \<Longrightarrow>
       totalCycles (acc' i) = sum_list (map (\<lambda>t. totalCycles (thread_slot s t i)) (contributing s i))"
    and hits: "\<And>i. i < MAX_CHECKPOINT \<Longrightarrow> hits' i = of_nat (length (contributing s i))"
    by (rule dump_threads_all [OF inv, of clk]) (rule that)
  let ?wa = "map (weighted_average s)
             (filter (\<lambda>i. 2 \<le> length (contributing s i)) [0..<MAX_CHECKPOINT])"
  from averages_section [OF fit its tot hits]
  have A: "(if True then dump_averages [0..<MAX_CHECKPOINT] (acc', hits') else ([], Inr ()))
      = (?wa, Inr ())" by simp
  from dump_sections [OF T A, of clkT tp ids] obtain out3 res where
    "dump clk clkT True tp ids s =
       ([NumberOfThreads (numThreads s) (threadIdCounter s), TimerResolution]
          @ out1 @ ?wa @ out3, res)"
    and "filter is_WeightedAverage out3 = []"
    by blast
  with out1 show ?thesis by (simp add: filter_map o_def)
qed

lemma dump_weighted_averages_spec:
  assumes inv: "registry_inv s" and fit: "iterations_fit s" and tfit: "totals_fit s"
  shows "filter is_WeightedAverage (fst (dump clk clkT True tp ids s)) =
           map (weighted_average_spec s)
             (filter (\<lambda>i. 2 \<le> length (contributing s i)) [0..<MAX_CHECKPOINT])"
proof -
  have "map (weighted_average s)
             (filter (\<lambda>i. 2 \<le> length (contributing s i)) [0..<MAX_CHECKPOINT])
      = map (weighted_average_spec s)
             (filter (\<lambda>i. 2 \<le> length (contributing s i)) [0..<MAX_CHECKPOINT])"
  proof (rule map_cong [OF refl])
    fix i assume "i \<in> set (filter (\<lambda>i. 2 \<le> length (contributing s i)) [0..<MAX_CHECKPOINT])"
    then have i: "i < MAX_CHECKPOINT" by simp
    from fit i have fi: "sum_list (map (\<lambda>t. unat (iterations (thread_slot s t i))) (contributing s i)) < 2 ^ 64"
      by (simp add: iterations_fit_def list_all_iff)
    from tfit i have ft: "sum_list (map (\<lambda>t. unat (totalCycles (thread_slot s t i))) (contributing s i)) < 2 ^ 64"
      by (simp add: totals_fit_def list_all_iff)
    from weighted_average_spec_eq [OF fi ft]
    show "weighted_average s i = weighted_average_spec s i" .
  qed
  with dump_weighted_averages_word [OF inv fit, of clk clkT tp ids] show ?thesis by simp
qed

lemma registry_two_totals_fit: "totals_fit registry_two"
  by (simp add: totals_fit_def MAX_CHECKPOINT_def upt_10 contributing_two
      thread_slot_two busy_record_slots)

lemma weighted_spec_two:
  "map (weighted_average_spec registry_two)
     (filter (\<lambda>i. 2 \<le> length (contributing registry_two i)) [0..<MAX_CHECKPOINT])
   = [WeightedAverage 0 2 MICRO_SEC_STR 10 20]"
  by (simp add: MAX_CHECKPOINT_def upt_10 contributing_two weighted_average_spec_def
      thread_slot_two busy_record_slots getTimeResolutionStr_def Let_def Suc_Suc_0)

lemma back_record_slots:
  "checkpoints back_record ! Suc 0
     = \<lparr>iterations = 1, totalCycles = 18446744073709551576, previousCycles = 60\<rparr>"
  "i \<noteq> Suc 0 \<Longrightarrow> i < MAX_CHECKPOINT \<Longrightarrow> checkpoints back_record ! i = CheckpointInfo_ctor 100"
  by (simp_all add: back_record_def MAX_CHECKPOINT_def nth_Cons' replicate_8)

lemma thread_slot_back:
  "thread_slot registry_back 0 i = checkpoints back_record ! i"
  "thread_slot registry_back (Suc 0) i = checkpoints back_record ! i"
  by (simp_all add: thread_slot_def registry_back_def)

lemma contributing_back:
  "contributing registry_back (Suc 0) = [0, 1]"
  "i \<noteq> Suc 0 \<Longrightarrow> i < MAX_CHECKPOINT \<Longrightarrow> contributing registry_back i = []"
proof -
  have c: "unat (threadIdCounter registry_back) = 2" by (simp add: registry_back_def)
  show "contributing registry_back (Suc 0) = [0, 1]"
    by (simp add: contributing_def contributes_def c upt_2 thread_slot_back back_record_slots)
  show "i \<noteq> Suc 0 \<Longrightarrow> i < MAX_CHECKPOINT \<Longrightarrow> contributing registry_back i = []"
    by (simp add: contributing_def contributes_def c upt_2 thread_slot_back back_record_slots
        CheckpointInfo_ctor_def)
qed

lemma registry_back_inv: "registry_inv registry_back"
  by (simp add: registry_inv_def registered_def registry_back_def)

lemma registry_back_fit: "iterations_fit registry_back"
  by (simp add: iterations_fit_def MAX_CHECKPOINT_def upt_10 contributing_back
      thread_slot_back back_record_slots)

lemma weighted_back:
  "map (weighted_average registry_back)
     (filter (\<lambda>i. 2 \<le> length (contributing registry_back i)) [0..<MAX_CHECKPOINT])
   = [WeightedAverage 1 1 SECOND_STR 9223372036854 9223372036854]"
  by (simp add: MAX_CHECKPOINT_def upt_10 contributing_back weighted_average_def
      thread_slot_back back_record_slots getTimeResolutionStr_def Let_def)

lemma weighted_spec_back:
  "weighted_average_spec registry_back 1
     = WeightedAverage 1 1 SECOND_STR 18446744073709 18446744073709"
  by (simp add: contributing_back weighted_average_spec_def
      thread_slot_back back_record_slots getTimeResolutionStr_def Let_def Suc_Suc_0)

text \<open>
  C6, as stated, fails where the 64-bit sums wrap around. In the registry of two threads
  with \<open>2 ^ 63\<close> hits of checkpoint 0 each, id 0 has two contributing threads and no line
  of the weighted-averages section is printed. In the registry reached by one call of
  \<open>checkpoint(1)\<close> from each of two threads whose records were constructed at clock
  reading 100 and whose calls read 60, each thread has a total of \<open>2 ^ 64 - 40\<close> for
  id 1 and the iteration counts sum to 2; the line printed for id 1 carries the total
  9223372036854 (seconds), where the accumulated total divided by the two contributing
  threads is 18446744073709.
\<close>

theorem weighted_averages_wrap_counterexample:
  "registry_inv registry_wrap
   \<and> contributing registry_wrap 0 = [0, 1]
   \<and> filter is_WeightedAverage (fst (dump clk50_sites clk50_sites True False False registry_wrap)) = []
   \<and> checkpoint_calls [(1, 1, clk100, 60), (1, 2, clk100, 60)] (Checkpoint_ctor 2 mem0)
       = Inr registry_back
   \<and> registry_inv registry_back \<and> iterations_fit registry_back
   \<and> contributing registry_back 1 = [0, 1]
   \<and> unat (totalCycles (thread_slot registry_back 0 1)) = 18446744073709551576
   \<and> unat (totalCycles (thread_slot registry_back 1 1)) = 18446744073709551576
   \<and> filter is_WeightedAverage (fst (dump clk50_sites clk50_sites True False False registry_back))
       = [WeightedAverage 1 1 SECOND_STR 9223372036854 9223372036854]
   \<and> weighted_average_spec registry_back 1
       = WeightedAverage 1 1 SECOND_STR 18446744073709 18446744073709"
proof -
  from dump_wrap [of clk50_sites clk50_sites False False]
  have wrap: "filter is_WeightedAverage
      (fst (dump clk50_sites clk50_sites True False False registry_wrap)) = []"
    by auto
  from dump_weighted_averages_word [OF registry_back_inv registry_back_fit,
      of clk50_sites clk50_sites False False]
  have printed: "filter is_WeightedAverage
      (fst (dump clk50_sites clk50_sites True False False registry_back))
       = [WeightedAverage 1 1 SECOND_STR 9223372036854 9223372036854]"
    by (simp only: weighted_back)
  have slots: "unat (totalCycles (thread_slot registry_back 0 1)) = 18446744073709551576"
    and "unat (totalCycles (thread_slot registry_back 1 1)) = 18446744073709551576"
    by (simp_all add: thread_slot_back back_record_slots)
  from this wrap printed registry_wrap_inv contributing_wrap registry_back_reachable
    registry_back_inv registry_back_fit contributing_back(1) weighted_spec_back
  show ?thesis by simp
qed


text \<open>
  C6, amended. For every registry whose registered identities are distinct keys of the
  thread map, and any flags of \<open>dump\<close>: a line of the weighted-averages section is
  printed only when the averages are requested and only for an id with two or more
  contributing threads, so an id with at most one contributing thread is omitted; and if,
  for each id, the iteration counts of the contributing threads sum to less than
  \<open>2 ^ 64\<close> and so do their totals, the section consists of exactly one line for each
  id with two or more contributing threads, in increasing order of the ids, which carries
  the accumulated iteration count and the accumulated total (sums of natural numbers) each
  divided by the number of contributing threads, the total and the average (their
  quotient) unit-scaled as a pair.
\<close>

theorem weighted_averages_section:
  assumes inv: "registry_inv s"
  shows "(\<forall>i n u a t. WeightedAverage i n u a t \<in> set (fst (dump clk clkT av tp ids s))
            \<longrightarrow> av \<and> i < MAX_CHECKPOINT \<and> 2 \<le> length (contributing s i))
       \<and> (iterations_fit s \<and> totals_fit s \<longrightarrow>
            filter is_WeightedAverage (fst (dump clk clkT True tp ids s)) =
              map (weighted_average_spec s)
                (filter (\<lambda>i. 2 \<le> length (contributing s i)) [0..<MAX_CHECKPOINT]))"
  using dump_weighted_lines [OF inv] dump_weighted_averages_spec [OF inv]
  by blast

theorem weighted_averages_section_witness:
  "registry_inv registry_two \<and> iterations_fit registry_two \<and> totals_fit registry_two
   \<and> filter is_WeightedAverage (fst (dump clk50_sites clk50_sites True True True registry_two))
       = [WeightedAverage 0 2 MICRO_SEC_STR 10 20]
   \<and> WeightedAverage 0 2 MICRO_SEC_STR 10 20
       \<in> set (fst (dump clk50_sites clk50_sites True True True registry_two))
   \<and> length (contributing registry_two 0) = 2"
proof -
  note t = weighted_averages_section [OF registry_two_inv, of clk50_sites clk50_sites True True True]
  from t registry_two_fit registry_two_totals_fit
  have lines: "filter is_WeightedAverage (fst (dump clk50_sites clk50_sites True True True registry_two))
       = [WeightedAverage 0 2 MICRO_SEC_STR 10 20]"
    by (simp only: weighted_spec_two simp_thms)
  then have "WeightedAverage 0 2 MICRO_SEC_STR 10 20
       \<in> set (filter is_WeightedAverage (fst (dump clk50_sites clk50_sites True True True registry_two)))"
    by simp
  then have mem: "WeightedAverage 0 2 MICRO_SEC_STR 10 20
       \<in> set (fst (dump clk50_sites clk50_sites True True True registry_two))"
    by simp
  from lines mem registry_two_inv registry_two_fit registry_two_totals_fit show ?thesis
    by (simp add: contributing_two)
qed


subsection \<open>Division by zero\<close>

text \<open>
  C7, as stated, fails: the accumulated iteration count is a 64-bit sum. In the registry of
  two threads with \<open>2 ^ 63\<close> hits of checkpoint 0 each the sum is 0, its quotient by the
  2 contributing threads is 0, and the weighted average divides by it.
\<close>

theorem dump_division_by_zero_counterexample:
  "registry_inv registry_wrap
   \<and> snd (dump clk50_sites clk50_sites True False False registry_wrap) = Inl DivisionByZero"
  using dump_wrap [of clk50_sites clk50_sites False False] registry_wrap_inv by auto


text \<open>
  C7, amended. For every registry whose registered identities are distinct keys of the
  thread map and in which, for each id, the iteration counts of the contributing threads
  sum to less than \<open>2 ^ 64\<close>, no call of \<open>dump\<close>, with any flags, divides by zero: the
  per-thread average is computed only for slots with a nonzero iteration count, and the
  quotient of the summed iterations by the number of contributing threads is at least 1.
\<close>

theorem dump_no_division_by_zero:
  assumes inv: "registry_inv s" and fit: "iterations_fit s"
  shows "snd (dump clk clkT a tp ids s) \<noteq> Inl DivisionByZero"
proof -
  obtain out1 acc' hits' where
    T: "dump_threads clk [0..<unat (threadIdCounter s)]
       (s, \<lambda>i. CheckpointInfo_ctor (clk 0 i), \<lambda>i. 0) = (out1, Inr (s, acc', hits'))"
    and out1: "filter is_WeightedAverage out1 = []"
    and its: "\<And>i. i < MAX_CHECKPOINT \<Longrightarrow>
       iterations (acc' i) = sum_list (map (\<lambda>t. iterations (thread_slot s t i)) (contributing s i))"
    and tot: "\<And>i. i < MAX_CHECKPOINT \<Longrightarrow>
       totalCycles (acc' i) = sum_list (map (\<lambda>t. totalCycles (thread_slot s t i)) (contributing s i))"
    and hits: "\<And>i. i < MAX_CHECKPOINT \<Longrightarrow> hits' i = of_nat (length (contributing s i))"
    by (rule dump_threads_all [OF inv, of clk]) (rule that)
  note avg = averages_section [OF fit its tot hits]
  obtain out2 where
    A: "(if a then dump_averages [0..<MAX_CHECKPOINT] (acc', hits') else ([], Inr ()))
      = (out2, Inr ())"
  proof (cases a)
    case True
    with avg show ?thesis by (intro that) simp
  next
    case False
    then show ?thesis by (intro that) simp
  qed
  from dump_sections [OF T A, of clkT tp ids] obtain out3 res where
    "dump clk clkT a tp ids s =
       ([NumberOfThreads (numThreads s) (threadIdCounter s), TimerResolution]
          @ out1 @ out2 @ out3, res)"
    and "res \<noteq> Inl DivisionByZero"
    by blast
  then show ?thesis by simp
qed

theorem dump_no_division_by_zero_witness:
  "registry_inv registry_two \<and> iterations_fit registry_two
   \<and> snd (dump clk50_sites clk50_sites True True True registry_two) \<noteq> Inl DivisionByZero"
  using dump_no_division_by_zero [OF registry_two_inv registry_two_fit] registry_two_inv registry_two_fit
  by simp


subsection \<open>The slow path of the registration\<close>

lemma getThreadCpInfo_no_window:
  "getThreadCpInfo_interleaved threadId clk Inr s = getThreadCpInfo threadId clk s"
  by (simp add: getThreadCpInfo_def getThreadCpInfo_interleaved_def split: option.splits)

lemma checkpoint_other_absent:
  assumes "numThreads s \<noteq> 0" "threadCpInfoMap s t = None" "threadId \<noteq> t"
    and "checkpoint cp threadId clk now s = Inr s'"
  shows "threadCpInfoMap s' t = None"
  using assms
  by (auto simp add: checkpoint_def getThreadCpInfo_def register_thread_def
      split: if_splits sum.splits option.splits)

lemma checkpoint_calls_others_absent:
  assumes "numThreads s \<noteq> 0" "threadCpInfoMap s t = None" "\<forall>c \<in> set cs. call_thread c \<noteq> t"
    and "checkpoint_calls cs s = Inr s'"
  shows "threadCpInfoMap s' t = None \<and> numThreads s' \<noteq> 0"
  using assms
proof (induction cs arbitrary: s)
  case Nil
  then show ?case by simp
next
  case (Cons c cs)
  obtain cp threadId clk now where c: "c = (cp, threadId, clk, now)"
    by (cases c) auto
  with Cons.prems(4) obtain s1 where
    one: "checkpoint cp threadId clk now s = Inr s1" and rest: "checkpoint_calls cs s1 = Inr s'"
    by (auto split: sum.splits)
  from Cons.prems(3) c have other: "threadId \<noteq> t" by (simp add: call_thread_def)
  from checkpoint_other_absent [OF Cons.prems(1,2) other one]
  have absent1: "threadCpInfoMap s1 t = None" .
  from checkpoint_numThreads [OF one] Cons.prems(1) have multi1: "numThreads s1 \<noteq> 0" by simp
  from Cons.prems(3) have "\<forall>c \<in> set cs. call_thread c \<noteq> t" by simp
  from Cons.IH [OF multi1 absent1 this rest] show ?case .
qed

lemma register_thread_effect:
  assumes "register_thread threadId clk s1 = Inr s2"
  shows "unat (threadIdCounter s1) < length (threadIdVector s1)
         \<and> s2 = s1\<lparr>threadIdVector := (threadIdVector s1)[unat (threadIdCounter s1) := threadId],
                  threadIdCounter := threadIdCounter s1 + 1,
                  threadCpInfoMap := (threadCpInfoMap s1)(threadId \<mapsto> ThreadCheckpointInfo_ctor clk)\<rparr>"
  using assms by (auto simp add: register_thread_def vector_set_def split: if_splits)

lemma throughput_dump_empty:
  "throughput_dump (Checkpoint_ctor 2 mem7)
     = Inr ((Checkpoint_ctor 2 mem7)\<lparr>threadCpInfoMap := [7 \<mapsto> ThreadCheckpointInfo_ctor clk50]\<rparr>)"
  by (simp add: throughput_dump_def dump_def dumpThroughput_def map_subscript_def vector_get_def
      Checkpoint_ctor_def mem7_def clk50_sites_def ThreadCheckpointInfo_ctor_def
      CheckpointInfo_ctor_def MAX_CHECKPOINT_def upt_10 Let_def last_hit_unroll)

text \<open>
  C2, as stated, fails: the write-locked section does not look the identity up again.
  Thread 7 finds no record under the read lock, in a registry of capacity 2 in which
  nothing is registered and whose unwritten cell 0 holds 7. Before it takes the write
  lock, a \<open>dump\<close> with the throughput flag inserts a record under key 7 (constructed at
  clock reading 50). The record is present when the write lock is acquired, and the
  section stores a second record (constructed at clock reading 60) in its place and
  registers the identity.
\<close>

theorem write_section_stores_second_record_counterexample:
  "numThreads (Checkpoint_ctor 2 mem7) \<noteq> 0
   \<and> threadCpInfoMap (Checkpoint_ctor 2 mem7) 7 = None
   \<and> throughput_dump (Checkpoint_ctor 2 mem7)
       = Inr ((Checkpoint_ctor 2 mem7)\<lparr>threadCpInfoMap := [7 \<mapsto> ThreadCheckpointInfo_ctor clk50]\<rparr>)
   \<and> getThreadCpInfo_interleaved 7 clk60 throughput_dump (Checkpoint_ctor 2 mem7)
       = Inr (7, ThreadCheckpointInfo_ctor clk60,
              (Checkpoint_ctor 2 mem7)
                \<lparr>threadCpInfoMap := [7 \<mapsto> ThreadCheckpointInfo_ctor clk60], threadIdCounter := 1\<rparr>)
   \<and> creationCycles (ThreadCheckpointInfo_ctor clk50) = 50
   \<and> creationCycles (ThreadCheckpointInfo_ctor clk60) = 60"
proof -
  have absent: "threadCpInfoMap (Checkpoint_ctor 2 mem7) 7 = None"
    by (simp add: Checkpoint_ctor_def)
  have "register_thread 7 clk60
          ((Checkpoint_ctor 2 mem7)\<lparr>threadCpInfoMap := [7 \<mapsto> ThreadCheckpointInfo_ctor clk50]\<rparr>)
        = Inr ((Checkpoint_ctor 2 mem7)
                \<lparr>threadCpInfoMap := [7 \<mapsto> ThreadCheckpointInfo_ctor clk60], threadIdCounter := 1\<rparr>)"
    by (simp add: register_thread_def vector_set_def Checkpoint_ctor_def mem7_def upt_rec)
  moreover have multi: "numThreads (Checkpoint_ctor 2 mem7) \<noteq> 0"
    by (simp add: Checkpoint_ctor_def)
  ultimately
  have "getThreadCpInfo_interleaved 7 clk60 throughput_dump (Checkpoint_ctor 2 mem7)
       = Inr (7, ThreadCheckpointInfo_ctor clk60,
              (Checkpoint_ctor 2 mem7)
                \<lparr>threadCpInfoMap := [7 \<mapsto> ThreadCheckpointInfo_ctor clk60], threadIdCounter := 1\<rparr>)"
    using absent throughput_dump_empty by (simp add: getThreadCpInfo_interleaved_def)
  moreover note multi
  moreover have "creationCycles (ThreadCheckpointInfo_ctor clk50) = 50"
    "creationCycles (ThreadCheckpointInfo_ctor clk60) = 60"
    by (simp_all add: ThreadCheckpointInfo_ctor_def clk50_def clk60_def)
  ultimately show ?thesis using absent throughput_dump_empty by simp
qed


text \<open>
  C2, amended. The slow path does not re-check the map under the write lock: it is entered
  when the lookup under the read lock found no record, and the write-locked section
  registers unconditionally. In multi-threaded mode, for every registry whose registered
  identities are distinct keys of the thread map, and whatever \<open>checkpoint\<close> calls other
  threads complete between the two locks, a call of \<open>getThreadCpInfo\<close> that returns
  returns the caller's own record. If the lookup found the record, nothing changes. If it
  did not, the record is still absent and the identity still unregistered when the write
  lock is acquired, and the section writes the identity into the cell of the index at
  \<open>threadIdCounter\<close>, increments the counter and stores a fresh record under the
  identity. The registered identities stay distinct keys of the thread map.
\<close>

theorem slow_path_inserts_once:
  assumes inv: "registry_inv s" and multi: "numThreads s \<noteq> 0"
    and others: "\<forall>c \<in> set cs. call_thread c \<noteq> threadId"
    and ok: "getThreadCpInfo_interleaved threadId clk (checkpoint_calls cs) s = Inr (key, r, s2)"
  shows "key = threadId \<and> threadCpInfoMap s2 threadId = Some r
         \<and> registry_inv s2 \<and> distinct (registered s2)
         \<and> (threadCpInfoMap s threadId \<noteq> None \<longrightarrow> s2 = s)
         \<and> (threadCpInfoMap s threadId = None \<longrightarrow>
              (\<exists>s1. checkpoint_calls cs s = Inr s1
                 \<and> threadCpInfoMap s1 threadId = None
                 \<and> threadId \<notin> set (registered s1)
                 \<and> unat (threadIdCounter s1) < length (threadIdVector s1)
                 \<and> r = ThreadCheckpointInfo_ctor clk
                 \<and> s2 = s1\<lparr>threadIdVector :=
                            (threadIdVector s1)[unat (threadIdCounter s1) := threadId],
                          threadIdCounter := threadIdCounter s1 + 1,
                          threadCpInfoMap :=
                            (threadCpInfoMap s1)(threadId \<mapsto> ThreadCheckpointInfo_ctor clk)\<rparr>))"
proof (cases "threadCpInfoMap s threadId")
  case (Some r0)
  with ok multi have "key = threadId" "r = r0" "s2 = s"
    by (simp_all add: getThreadCpInfo_interleaved_def)
  with inv Some show ?thesis by (simp add: registry_inv_def)
next
  case None
  with ok multi obtain s1 where
    window: "checkpoint_calls cs s = Inr s1"
    and reg: "register_thread threadId clk s1 = Inr s2"
    and res: "key = threadId" "r = ThreadCheckpointInfo_ctor clk"
    by (auto simp add: getThreadCpInfo_interleaved_def split: sum.splits)
  from checkpoint_calls_others_absent [OF multi None others window]
  have absent1: "threadCpInfoMap s1 threadId = None" by simp
  from checkpoint_calls_inv [OF inv window] have inv1: "registry_inv s1" .
  from inv1 absent1 have notin: "threadId \<notin> set (registered s1)"
    by (auto simp add: registry_inv_def)
  from register_thread_inv [OF inv1 absent1 reg] have inv2: "registry_inv s2" .
  note eff = register_thread_effect [OF reg]
  from eff have present: "threadCpInfoMap s2 threadId = Some (ThreadCheckpointInfo_ctor clk)"
    by simp
  from inv2 have "distinct (registered s2)" by (simp add: registry_inv_def)
  with None res window absent1 notin inv2 eff present show ?thesis by blast
qed

theorem slow_path_inserts_once_witness:
  "registry_inv (Checkpoint_ctor 2 mem0) \<and> numThreads (Checkpoint_ctor 2 mem0) \<noteq> 0
   \<and> call_thread (0, 1, clk50, 100) \<noteq> 7
   \<and> (\<exists>s2. getThreadCpInfo_interleaved 7 clk50 (checkpoint_calls [(0, 1, clk50, 100)])
              (Checkpoint_ctor 2 mem0) = Inr (7, ThreadCheckpointInfo_ctor clk50, s2)
          \<and> registered s2 = [1, 7] \<and> registry_inv s2 \<and> distinct (registered s2))"
proof -
  have inv: "registry_inv (Checkpoint_ctor 2 mem0)" by (rule registry_inv_ctor)
  have multi: "numThreads (Checkpoint_ctor 2 mem0) \<noteq> 0" by (simp add: Checkpoint_ctor_def)
  have other: "call_thread (0, 1, clk50, 100) \<noteq> 7" by (simp add: call_thread_def)
  then have others: "\<forall>c \<in> set [(0, 1, clk50, 100 :: uint64_t)]. call_thread c \<noteq> 7" by simp
  have "\<exists>s2. getThreadCpInfo_interleaved 7 clk50 (checkpoint_calls [(0, 1, clk50, 100)])
              (Checkpoint_ctor 2 mem0) = Inr (7, ThreadCheckpointInfo_ctor clk50, s2)
          \<and> registered s2 = [1, 7]"
    by (simp add: getThreadCpInfo_interleaved_def eval_defs registered_def upt_10 upt_2)
  then obtain s2 where
    ok: "getThreadCpInfo_interleaved 7 clk50 (checkpoint_calls [(0, 1, clk50, 100)])
              (Checkpoint_ctor 2 mem0) = Inr (7, ThreadCheckpointInfo_ctor clk50, s2)"
    and reg: "registered s2 = [1, 7]" by blast
  from slow_path_inserts_once [OF inv multi others ok]
  have "registry_inv s2" "distinct (registered s2)" by simp_all
  with inv multi other ok reg show ?thesis by blast
qed


subsection \<open>Single-threaded mode and the throughput report\<close>

lemma store_deltas_last:
  "store_deltas cp now r = Inr r' \<Longrightarrow> unat (lastCheckpointHit r') < MAX_CHECKPOINT"
  by (auto simp add: store_deltas_def Let_def unat_word_of_int_id split: if_splits)

lemma checkpoint_single_fresh:
  "checkpoint cp threadId clk now (Checkpoint_ctor 0 mem) =
     (case store_deltas cp now (ThreadCheckpointInfo_ctor clk) of
        Inl f \<Rightarrow> Inl f
      | Inr r' \<Rightarrow>
          Inr ((Checkpoint_ctor 0 mem)
                 \<lparr>threadCpInfoMap := [0 \<mapsto> r'], threadIdVector := [0], threadIdCounter := 1\<rparr>))"
  by (simp add: checkpoint_def getThreadCpInfo_def Checkpoint_ctor_def vector_set_def
      split: sum.splits)

lemma checkpoint_single_record:
  assumes "single_record s" "threadCpInfoMap s 0 = Some r"
  shows "checkpoint cp threadId clk now s =
     (case store_deltas cp now r of
        Inl f \<Rightarrow> Inl f
      | Inr r' \<Rightarrow> Inr (s\<lparr>threadCpInfoMap := (threadCpInfoMap s)(0 \<mapsto> r')\<rparr>))"
proof -
  from assms have "threadCpInfoMap s \<noteq> Map.empty" by auto
  with assms show ?thesis
    by (simp add: checkpoint_def getThreadCpInfo_def single_record_def split: sum.splits)
qed

lemma single_record_update:
  assumes "single_record s" "unat (lastCheckpointHit r') < MAX_CHECKPOINT"
  shows "single_record (s\<lparr>threadCpInfoMap := (threadCpInfoMap s)(0 \<mapsto> r')\<rparr>)"
  using assms by (auto simp add: single_record_def registered_def)

lemma checkpoint_calls_single_record:
  assumes "single_record s" "threadCpInfoMap s 0 = Some r"
  shows "checkpoint_calls cs s =
     (case store_deltas_calls (map call_update cs) r of
        Inl f \<Rightarrow> Inl f
      | Inr r' \<Rightarrow> Inr (s\<lparr>threadCpInfoMap := (threadCpInfoMap s)(0 \<mapsto> r')\<rparr>))"
  using assms
proof (induction cs arbitrary: s r)
  case Nil
  then have "(threadCpInfoMap s)(0 \<mapsto> r) = threadCpInfoMap s" by (simp add: map_upd_triv)
  then show ?case by simp
next
  case (Cons c cs)
  obtain cp threadId clk now where c: "c = (cp, threadId, clk, now)"
    by (cases c) auto
  note step = checkpoint_single_record [OF Cons.prems, of cp threadId clk now]
  show ?case
  proof (cases "store_deltas cp now r")
    case (Inl f)
    with step c show ?thesis by (simp add: call_update_def)
  next
    case (Inr r1)
    let ?s1 = "s\<lparr>threadCpInfoMap := (threadCpInfoMap s)(0 \<mapsto> r1)\<rparr>"
    from single_record_update [OF Cons.prems(1) store_deltas_last [OF Inr]]
    have s1: "single_record ?s1" .
    have r1: "threadCpInfoMap ?s1 0 = Some r1" by simp
    have cu: "call_update c = (cp, now)" using c by (simp add: call_update_def)
    have lhs: "checkpoint_calls (c # cs) s = checkpoint_calls cs ?s1"
      using step Inr c by simp
    have rhs: "store_deltas_calls (map call_update (c # cs)) r
               = store_deltas_calls (map call_update cs) r1"
      using Inr by (simp add: cu)
    have eq: "\<And>r'. ?s1\<lparr>threadCpInfoMap := (threadCpInfoMap ?s1)(0 \<mapsto> r')\<rparr>
                   = s\<lparr>threadCpInfoMap := (threadCpInfoMap s)(0 \<mapsto> r')\<rparr>"
      by simp
    show ?thesis by (simp only: lhs rhs Cons.IH [OF s1 r1] eq)
  qed
qed

lemma single_thread_mode_attribution:
  "checkpoint_calls (c # cs) (Checkpoint_ctor 0 mem) =
     (case store_deltas_calls (map call_update (c # cs))
             (ThreadCheckpointInfo_ctor (fst (snd (snd c)))) of
        Inl f \<Rightarrow> Inl f
      | Inr r' \<Rightarrow>
          Inr ((Checkpoint_ctor 0 mem)
                 \<lparr>threadCpInfoMap := [0 \<mapsto> r'], threadIdVector := [0], threadIdCounter := 1\<rparr>))"
proof -
  obtain cp threadId clk now where c: "c = (cp, threadId, clk, now)"
    by (cases c) auto
  show ?thesis
  proof (cases "store_deltas cp now (ThreadCheckpointInfo_ctor clk)")
    case (Inl f)
    with c show ?thesis by (simp add: checkpoint_single_fresh call_update_def)
  next
    case (Inr r1)
    let ?s1 = "(Checkpoint_ctor 0 mem)
                 \<lparr>threadCpInfoMap := [0 \<mapsto> r1], threadIdVector := [0], threadIdCounter := 1\<rparr>"
    from store_deltas_last [OF Inr] have s1: "single_record ?s1"
      by (simp add: single_record_def registered_def Checkpoint_ctor_def)
    have r1: "threadCpInfoMap ?s1 0 = Some r1" by simp
    have cu: "call_update c = (cp, now)" "fst (snd (snd c)) = clk"
      using c by (simp_all add: call_update_def)
    have lhs: "checkpoint_calls (c # cs) (Checkpoint_ctor 0 mem) = checkpoint_calls cs ?s1"
      using Inr c by (simp add: checkpoint_single_fresh)
    have rhs: "store_deltas_calls (map call_update (c # cs)) (ThreadCheckpointInfo_ctor clk)
               = store_deltas_calls (map call_update cs) r1"
      using Inr by (simp add: cu)
    have eq: "\<And>r'. ?s1\<lparr>threadCpInfoMap := (threadCpInfoMap ?s1)(0 \<mapsto> r')\<rparr>
                   = (Checkpoint_ctor 0 mem)
                 \<lparr>threadCpInfoMap := [0 \<mapsto> r'], threadIdVector := [0], threadIdCounter := 1\<rparr>"
      by simp
    show ?thesis
      by (simp only: cu(2) lhs rhs checkpoint_calls_single_record [OF s1 r1, of cs] eq)
  qed
qed

lemma store_deltas_iterations:
  assumes "store_deltas cp now r = Inr r'" "length (checkpoints r) = MAX_CHECKPOINT"
  shows "length (checkpoints r') = MAX_CHECKPOINT
         \<and> (\<forall>k < MAX_CHECKPOINT. iterations (checkpoints r' ! k)
               = iterations (checkpoints r ! k) + (if k = nat cp then 1 else 0))"
  using assms
  by (auto simp add: store_deltas_def Let_def nth_list_update split: if_splits)

lemma store_deltas_calls_iterations:
  assumes "store_deltas_calls us r = Inr r'" "length (checkpoints r) = MAX_CHECKPOINT"
  shows "\<forall>k < MAX_CHECKPOINT. iterations (checkpoints r' ! k)
               = iterations (checkpoints r ! k) + of_nat (length (filter (\<lambda>u. nat (fst u) = k) us))"
  using assms
proof (induction us arbitrary: r)
  case Nil
  then show ?case by simp
next
  case (Cons u us)
  obtain cp now where u: "u = (cp, now)" by (cases u)
  with Cons.prems(1) obtain r1 where
    one: "store_deltas cp now r = Inr r1" and rest: "store_deltas_calls us r1 = Inr r'"
    by (auto split: sum.splits)
  note st = store_deltas_iterations [OF one Cons.prems(2)]
  from st have len1: "length (checkpoints r1) = MAX_CHECKPOINT" by simp
  from Cons.IH [OF rest len1] st u show ?case by auto
qed

lemma throughput_dump_unregistered:
  "throughput_dump (Checkpoint_ctor 0 mem)
     = Inr ((Checkpoint_ctor 0 mem)\<lparr>threadCpInfoMap := [mem 0 \<mapsto> ThreadCheckpointInfo_ctor clk50]\<rparr>)"
  by (simp add: throughput_dump_def dump_def dumpThroughput_def map_subscript_def vector_get_def
      Checkpoint_ctor_def clk50_sites_def ThreadCheckpointInfo_ctor_def
      CheckpointInfo_ctor_def MAX_CHECKPOINT_def upt_10 Let_def last_hit_unroll)

lemma checkpoint_unregistered_step:
  assumes "numThreads s = 0" "isActive s" "threadCpInfoMap s \<noteq> Map.empty"
    and "\<forall>r. threadCpInfoMap s 0 = Some r \<longrightarrow> unat (lastCheckpointHit r) < MAX_CHECKPOINT"
    and "0 \<le> cp" "cp < int MAX_CHECKPOINT"
  shows "\<exists>s'. checkpoint cp threadId clk now s = Inr s'
           \<and> numThreads s' = 0 \<and> isActive s' \<and> threadCpInfoMap s' \<noteq> Map.empty
           \<and> (\<forall>r. threadCpInfoMap s' 0 = Some r \<longrightarrow> unat (lastCheckpointHit r) < MAX_CHECKPOINT)
           \<and> threadIdCounter s' = threadIdCounter s \<and> threadIdVector s' = threadIdVector s
           \<and> dom (threadCpInfoMap s') = insert 0 (dom (threadCpInfoMap s))"
proof (cases "threadCpInfoMap s 0")
  case None
  let ?r = "ThreadCheckpointInfo_ctor clk"
  have "unat (lastCheckpointHit ?r) < MAX_CHECKPOINT"
    by (simp add: ThreadCheckpointInfo_ctor_def MAX_CHECKPOINT_def)
  from store_deltas_ok [OF assms(5,6) this] obtain r' where
    r': "store_deltas cp now ?r = Inr r'" "unat (lastCheckpointHit r') < MAX_CHECKPOINT"
    by blast
  with assms(1,2,3) None show ?thesis
    by (simp add: checkpoint_def getThreadCpInfo_def)
next
  case (Some r)
  with assms(4) have "unat (lastCheckpointHit r) < MAX_CHECKPOINT" by simp
  from store_deltas_ok [OF assms(5,6) this] obtain r' where
    r': "store_deltas cp now r = Inr r'" "unat (lastCheckpointHit r') < MAX_CHECKPOINT"
    by blast
  with assms(1,2,3) Some show ?thesis
    by (simp add: checkpoint_def getThreadCpInfo_def)
qed

lemma checkpoint_calls_unregistered:
  assumes "numThreads s = 0" "isActive s" "threadCpInfoMap s \<noteq> Map.empty"
    and "\<forall>r. threadCpInfoMap s 0 = Some r \<longrightarrow> unat (lastCheckpointHit r) < MAX_CHECKPOINT"
    and "cs \<noteq> []" "\<forall>c \<in> set cs. valid_id c"
  shows "\<exists>s'. checkpoint_calls cs s = Inr s'
           \<and> threadIdCounter s' = threadIdCounter s \<and> threadIdVector s' = threadIdVector s
           \<and> dom (threadCpInfoMap s') = insert 0 (dom (threadCpInfoMap s))"
  using assms
proof (induction cs arbitrary: s)
  case Nil
  then show ?case by simp
next
  case (Cons c cs)
  obtain cp threadId clk now where c: "c = (cp, threadId, clk, now)"
    by (cases c) auto
  with Cons.prems(6) have cp: "0 \<le> cp" "cp < int MAX_CHECKPOINT"
    by (simp_all add: valid_id_def)
  from checkpoint_unregistered_step [OF Cons.prems(1-4) cp, of threadId clk now]
  obtain s1 where one: "checkpoint cp threadId clk now s = Inr s1"
    and s1: "numThreads s1 = 0" "isActive s1" "threadCpInfoMap s1 \<noteq> Map.empty"
      "\<forall>r. threadCpInfoMap s1 0 = Some r \<longrightarrow> unat (lastCheckpointHit r) < MAX_CHECKPOINT"
    and same: "threadIdCounter s1 = threadIdCounter s" "threadIdVector s1 = threadIdVector s"
      "dom (threadCpInfoMap s1) = insert 0 (dom (threadCpInfoMap s))"
    by blast
  show ?case
  proof (cases "cs = []")
    case True
    with one same c show ?thesis by simp
  next
    case False
    from Cons.prems(6) have "\<forall>c \<in> set cs. valid_id c" by simp
    from Cons.IH [OF s1 False this] obtain s' where
      "checkpoint_calls cs s1 = Inr s'"
      "threadIdCounter s' = threadIdCounter s1" "threadIdVector s' = threadIdVector s1"
      "dom (threadCpInfoMap s') = insert 0 (dom (threadCpInfoMap s1))"
      by blast
    with one same c show ?thesis by simp
  qed
qed

lemma store_deltas_calls_counts:
  assumes "store_deltas_calls (map call_update cs) (ThreadCheckpointInfo_ctor clk) = Inr r"
    and "\<forall>c \<in> set cs. valid_id c" and "k < MAX_CHECKPOINT"
  shows "iterations (checkpoints r ! k) = of_nat (length (filter (\<lambda>c. fst c = int k) cs))"
proof -
  have len: "length (checkpoints (ThreadCheckpointInfo_ctor clk)) = MAX_CHECKPOINT"
    by (simp add: ThreadCheckpointInfo_ctor_def)
  have zero: "iterations (checkpoints (ThreadCheckpointInfo_ctor clk) ! k) = 0"
    using assms(3) by (simp add: ThreadCheckpointInfo_ctor_def CheckpointInfo_ctor_def)
  have "filter (\<lambda>u. nat (fst u) = k) (map call_update cs)
      = map call_update (filter (\<lambda>c. fst c = int k) cs)"
    using assms(2)
    by (induction cs) (auto simp add: call_update_def valid_id_def)
  then have "length (filter (\<lambda>u. nat (fst u) = k) (map call_update cs))
      = length (filter (\<lambda>c. fst c = int k) cs)"
    by simp
  with store_deltas_calls_iterations [OF assms(1) len] assms(3) zero show ?thesis
    by simp
qed

text \<open>
  C9. The claim holds of runs that only call \<open>checkpoint\<close>, and fails after an early
  throughput report. In single-threaded mode (\<open>initialize\<close> with 0 threads), for every
  nonempty sequence of calls with ids inside the array, made by whatever threads: from
  the fresh registry the run returns with exactly one record, under the implicit key 0,
  registered once, whose slot \<open>k\<close> counts the calls with id \<open>k\<close>, and the outcome is
  the one the same calls give when they all come from one thread \<open>t\<close>. But when \<open>dump\<close>
  has reported the throughput before the first call, its map subscript has inserted a
  record under what the unwritten cell 0 of the index holds (\<open>mem 0\<close>); the thread map
  is never empty again and no call registers the implicit record: the run returns with
  the keys 0 and \<open>mem 0\<close> in the thread map, the counter at 0 and no identity
  registered.
\<close>

theorem single_thread_mode_registration:
  assumes ne: "cs \<noteq> []" and valid: "\<forall>c \<in> set cs. valid_id c"
  shows "(\<exists>r. checkpoint_calls cs (Checkpoint_ctor 0 mem)
               = Inr ((Checkpoint_ctor 0 mem)
                   \<lparr>threadCpInfoMap := [0 \<mapsto> r], threadIdVector := [0], threadIdCounter := 1\<rparr>)
            \<and> (\<forall>k < MAX_CHECKPOINT. iterations (checkpoints r ! k)
                  = of_nat (length (filter (\<lambda>c. fst c = int k) cs)))
            \<and> checkpoint_calls (map (as_thread t) cs) (Checkpoint_ctor 0 mem)
                = checkpoint_calls cs (Checkpoint_ctor 0 mem))
       \<and> (\<exists>s. and_then (throughput_dump (Checkpoint_ctor 0 mem)) (checkpoint_calls cs) = Inr s
            \<and> dom (threadCpInfoMap s) = {0, mem 0}
            \<and> threadIdCounter s = 0 \<and> registered s = [])"
proof -
  from ne obtain c cs' where cs: "cs = c # cs'" by (cases cs) auto
  obtain cp threadId clk now where c: "c = (cp, threadId, clk, now)"
    by (cases c) auto
  with valid cs have cp: "0 \<le> cp" "cp < int MAX_CHECKPOINT"
    by (simp_all add: valid_id_def)
  from checkpoint_single_first [OF cp]
  obtain s1 where s1: "checkpoint cp threadId clk now (Checkpoint_ctor 0 mem) = Inr s1"
    "single_record s1" by blast
  from valid cs have "\<forall>c \<in> set cs'. valid_id c" by simp
  from checkpoint_calls_single [OF s1(2) this]
  obtain s where s: "checkpoint_calls cs' s1 = Inr s" by blast
  from s s1 cs c have run: "checkpoint_calls (c # cs') (Checkpoint_ctor 0 mem) = Inr s" by simp
  have clk: "fst (snd (snd c)) = clk" using c by simp
  from run single_thread_mode_attribution [of c cs' mem] obtain r where
    r: "store_deltas_calls (map call_update (c # cs')) (ThreadCheckpointInfo_ctor clk) = Inr r"
    and shape: "s = (Checkpoint_ctor 0 mem)
                   \<lparr>threadCpInfoMap := [0 \<mapsto> r], threadIdVector := [0], threadIdCounter := 1\<rparr>"
    unfolding clk by (auto split: sum.splits)
  have counts: "\<forall>k < MAX_CHECKPOINT. iterations (checkpoints r ! k)
                  = of_nat (length (filter (\<lambda>c. fst c = int k) cs))"
    using store_deltas_calls_counts [OF r] valid cs by simp
  have "numThreads (Checkpoint_ctor 0 mem) = 0" by (simp add: Checkpoint_ctor_def)
  from checkpoint_calls_thread_irrelevant [OF this]
  have same: "checkpoint_calls (map (as_thread t) cs) (Checkpoint_ctor 0 mem)
                = checkpoint_calls cs (Checkpoint_ctor 0 mem)" .
  let ?s0 = "(Checkpoint_ctor 0 mem)\<lparr>threadCpInfoMap := [mem 0 \<mapsto> ThreadCheckpointInfo_ctor clk50]\<rparr>"
  have s0: "numThreads ?s0 = 0" "isActive ?s0" "threadCpInfoMap ?s0 \<noteq> Map.empty"
    "\<forall>r. threadCpInfoMap ?s0 0 = Some r \<longrightarrow> unat (lastCheckpointHit r) < MAX_CHECKPOINT"
    by (auto simp add: Checkpoint_ctor_def ThreadCheckpointInfo_ctor_def MAX_CHECKPOINT_def)
  from checkpoint_calls_unregistered [OF s0 ne valid] obtain s' where
    late: "checkpoint_calls cs ?s0 = Inr s'"
    and l: "threadIdCounter s' = threadIdCounter ?s0" "threadIdVector s' = threadIdVector ?s0"
      "dom (threadCpInfoMap s') = insert 0 (dom (threadCpInfoMap ?s0))"
    by blast
  have "and_then (throughput_dump (Checkpoint_ctor 0 mem)) (checkpoint_calls cs) = Inr s'"
    by (simp only: throughput_dump_unregistered and_then_def sum.case late)
  moreover from l have "dom (threadCpInfoMap s') = {0, mem 0}"
    "threadIdCounter s' = 0" "registered s' = []"
    by (simp_all add: Checkpoint_ctor_def registered_def)
  ultimately have part2: "\<exists>s. and_then (throughput_dump (Checkpoint_ctor 0 mem)) (checkpoint_calls cs) = Inr s
            \<and> dom (threadCpInfoMap s) = {0, mem 0}
            \<and> threadIdCounter s = 0 \<and> registered s = []"
    by blast
  from run shape cs have "checkpoint_calls cs (Checkpoint_ctor 0 mem)
               = Inr ((Checkpoint_ctor 0 mem)
                   \<lparr>threadCpInfoMap := [0 \<mapsto> r], threadIdVector := [0], threadIdCounter := 1\<rparr>)"
    by simp
  with counts same part2 show ?thesis by blast
qed

theorem single_thread_mode_registration_witness:
  "([(1, 11, clk50, 100), (2, 22, clk50, 200)] :: call list) \<noteq> []
   \<and> valid_id (1, 11, clk50, 100) \<and> valid_id (2, 22, clk50, 200)
   \<and> (\<exists>r. checkpoint_calls [(1, 11, clk50, 100), (2, 22, clk50, 200)] (Checkpoint_ctor 0 mem7)
             = Inr ((Checkpoint_ctor 0 mem7)
                 \<lparr>threadCpInfoMap := [0 \<mapsto> r], threadIdVector := [0], threadIdCounter := 1\<rparr>)
          \<and> iterations (checkpoints r ! 0) = 0
          \<and> iterations (checkpoints r ! 1) = 1
          \<and> iterations (checkpoints r ! 2) = 1)
   \<and> registry_summary (checkpoint_calls [(1, 11, clk50, 100), (2, 22, clk50, 200)]
        (Checkpoint_ctor 0 mem7)) = Some ({0}, 1, [0])
   \<and> registry_summary
        (and_then (throughput_dump (Checkpoint_ctor 0 mem7))
           (checkpoint_calls [(1, 11, clk50, 100), (2, 22, clk50, 200)]))
        = Some ({0, 7}, 0, [])"
proof -
  let ?cs = "[(1, 11, clk50, 100), (2, 22, clk50, 200)] :: call list"
  have ne: "?cs \<noteq> []" by simp
  have v1: "valid_id (1, 11, clk50, 100)" and v2: "valid_id (2, 22, clk50, 200)"
    by (simp_all add: valid_id_def MAX_CHECKPOINT_def)
  then have valid: "\<forall>c \<in> set ?cs. valid_id c" by simp
  note t = single_thread_mode_registration [OF ne valid, of mem7 0]
  from t obtain r where
    run: "checkpoint_calls ?cs (Checkpoint_ctor 0 mem7)
             = Inr ((Checkpoint_ctor 0 mem7)
                 \<lparr>threadCpInfoMap := [0 \<mapsto> r], threadIdVector := [0], threadIdCounter := 1\<rparr>)"
    and counts: "\<forall>k < MAX_CHECKPOINT. iterations (checkpoints r ! k)
                  = of_nat (length (filter (\<lambda>c. fst c = int k) ?cs))"
    by blast
  from counts have c0: "iterations (checkpoints r ! 0) = 0"
    and c1: "iterations (checkpoints r ! 1) = 1"
    and c2: "iterations (checkpoints r ! 2) = 1"
    by (simp_all add: MAX_CHECKPOINT_def)
  from run have fresh: "registry_summary (checkpoint_calls ?cs (Checkpoint_ctor 0 mem7))
      = Some ({0}, 1, [0])"
    by (simp add: registry_summary_def registered_def)
  from t obtain s where
    "and_then (throughput_dump (Checkpoint_ctor 0 mem7)) (checkpoint_calls ?cs) = Inr s"
    "dom (threadCpInfoMap s) = {0, mem7 0}" "threadIdCounter s = 0" "registered s = []"
    by blast
  then have late: "registry_summary
        (and_then (throughput_dump (Checkpoint_ctor 0 mem7)) (checkpoint_calls ?cs))
        = Some ({0, 7}, 0, [])"
    by (simp add: registry_summary_def mem7_def)
  from run c0 c1 c2 have "\<exists>r. checkpoint_calls ?cs (Checkpoint_ctor 0 mem7)
             = Inr ((Checkpoint_ctor 0 mem7)
                 \<lparr>threadCpInfoMap := [0 \<mapsto> r], threadIdVector := [0], threadIdCounter := 1\<rparr>)
          \<and> iterations (checkpoints r ! 0) = 0
          \<and> iterations (checkpoints r ! 1) = 1
          \<and> iterations (checkpoints r ! 2) = 1"
    by blast
  with ne v1 v2 fresh late show ?thesis by blast
qed


subsection \<open>Unit scaling in the report\<close>

lemma registry_ms_reachable:
  "checkpoint_calls [(1, 1, clk50, 500050)] (Checkpoint_ctor 2 mem0) = Inr registry_ms"
  by (simp add: eval_defs upt_10 upt_2 registry_ms_def ms_record_def replicate_8)

lemma print_checkpoints_lines:
  assumes "\<And>c. thread_slot s thread c = cps ! c"
    and "print_checkpoints thread cps cids avgs = (out, avgs')"
  shows "out = map (detail_line s thread) cids"
  using assms(2)
proof (induction cids arbitrary: avgs out)
  case Nil
  then show ?case by simp
next
  case (Cons c cids)
  obtain acc hits where avgs: "avgs = (acc, hits)" by (cases avgs)
  from Cons.prems obtain out' avgs1 where
    rest: "print_checkpoints thread cps cids avgs1 = (out', avgs')"
    and out: "out = detail_line s thread c # out'"
    unfolding avgs
    by (auto simp add: Let_def detail_line_def assms(1) split: prod.splits)
  from Cons.IH [OF rest] out show ?case by simp
qed

lemma dump_thread_lines:
  assumes inv: "registry_inv s" and t: "thread < unat (threadIdCounter s)"
  shows "\<exists>m. fst (dump_thread clk thread (s, acc, hits)) =
           (if \<exists>i < MAX_CHECKPOINT. contributes s i thread
            then map (detail_line s thread) [0..<m] @ [EndOfThread] else [])
         \<and> m \<le> MAX_CHECKPOINT
         \<and> (\<forall>i. m \<le> i \<and> i < MAX_CHECKPOINT \<longrightarrow> \<not> contributes s i thread)"
proof -
  from registered_in_map [OF inv t] obtain r where
    len: "thread < length (threadIdVector s)"
    and r: "threadCpInfoMap s (threadIdVector s ! thread) = Some r"
    by blast
  let ?cps = "checkpoints r"
  have slot: "\<And>i. thread_slot s thread i = ?cps ! i"
    by (simp add: thread_slot_def r)
  have used: "threadUsed ?cps \<longleftrightarrow> (\<exists>i < MAX_CHECKPOINT. contributes s i thread)"
    by (simp add: threadUsed_iff contributes_def slot)
  let ?m = "filter_unused ?cps MAX_CHECKPOINT (MAX_CHECKPOINT - 1) MAX_CHECKPOINT"
  from filter_unused_top [of ?cps] have m: "?m \<le> MAX_CHECKPOINT"
    and tail: "\<forall>i. ?m \<le> i \<and> i < MAX_CHECKPOINT \<longrightarrow> \<not> contributes s i thread"
    by (simp_all add: contributes_def slot)
  show ?thesis
  proof (cases "threadUsed ?cps")
    case False
    with len r used have "fst (dump_thread clk thread (s, acc, hits)) = []"
      by (simp add: dump_thread_def vector_get_def map_subscript_def)
    with False used m tail show ?thesis by auto
  next
    case True
    obtain out acc' hits' where
      pc: "print_checkpoints thread ?cps [0..<?m] (acc, hits) = (out, acc', hits')"
      by (metis prod_cases3)
    from print_checkpoints_lines [OF slot pc]
    have out: "out = map (detail_line s thread) [0..<?m]" .
    from True len r pc
    have "dump_thread clk thread (s, acc, hits) = (out @ [EndOfThread], Inr (s, acc', hits'))"
      by (simp add: dump_thread_def vector_get_def map_subscript_def Let_def)
    with True used out m tail show ?thesis by auto
  qed
qed

lemma printed_pair_detail [simp]: "printed_pair s (detail_line s thread cp)"
  by (simp add: detail_line_def Let_def split: prod.splits)

lemma printed_pair_weighted [simp]: "printed_pair s (weighted_average s i)"
  by (simp add: weighted_average_def Let_def split: prod.splits)

lemma dump_thread_pairs:
  assumes inv: "registry_inv s" and t: "thread < unat (threadIdCounter s)"
  shows "list_all (printed_pair s) (fst (dump_thread clk thread (s, acc, hits)))"
proof -
  from dump_thread_lines [OF inv t, of clk acc hits] obtain m where
    "fst (dump_thread clk thread (s, acc, hits)) =
           (if \<exists>i < MAX_CHECKPOINT. contributes s i thread
            then map (detail_line s thread) [0..<m] @ [EndOfThread] else [])"
    by blast
  then show ?thesis by (auto simp add: list_all_iff)
qed

lemma dump_thread_used_slot:
  assumes inv: "registry_inv s" and t: "thread < unat (threadIdCounter s)"
    and cp: "cp < MAX_CHECKPOINT" "contributes s cp thread"
  shows "detail_line s thread cp \<in> set (fst (dump_thread clk thread (s, acc, hits)))"
proof -
  from dump_thread_lines [OF inv t, of clk acc hits] obtain m where
    out: "fst (dump_thread clk thread (s, acc, hits)) =
           (if \<exists>i < MAX_CHECKPOINT. contributes s i thread
            then map (detail_line s thread) [0..<m] @ [EndOfThread] else [])"
    and tail: "\<forall>i. m \<le> i \<and> i < MAX_CHECKPOINT \<longrightarrow> \<not> contributes s i thread"
    by blast
  from cp tail have "cp < m" by (meson not_le)
  moreover from cp have "\<exists>i < MAX_CHECKPOINT. contributes s i thread" by blast
  ultimately show ?thesis using out by simp
qed

lemma dump_threads_pairs:
  assumes inv: "registry_inv s" and ts: "\<forall>t \<in> set ts. t < unat (threadIdCounter s)"
  shows "list_all (printed_pair s) (fst (dump_threads clk ts (s, acc, hits)))
         \<and> (\<forall>t \<in> set ts. \<forall>cp < MAX_CHECKPOINT. contributes s cp t \<longrightarrow>
               detail_line s t cp \<in> set (fst (dump_threads clk ts (s, acc, hits))))"
  using ts
proof (induction ts arbitrary: acc hits)
  case Nil
  then show ?case by simp
next
  case (Cons t ts)
  from Cons.prems have t: "t < unat (threadIdCounter s)"
    and rest: "\<forall>t \<in> set ts. t < unat (threadIdCounter s)" by simp_all
  from dump_thread_inv [OF inv t, of "clk (Suc t)" acc hits] obtain out1 acc1 hits1 where
    one: "dump_thread (clk (Suc t)) t (s, acc, hits) = (out1, Inr (s, acc1, hits1))"
    by blast
  obtain out2 r2 where two: "dump_threads clk ts (s, acc1, hits1) = (out2, r2)"
    by (metis surj_pair)
  from one two have out: "fst (dump_threads clk (t # ts) (s, acc, hits)) = out1 @ out2"
    by simp
  from dump_thread_pairs [OF inv t, of "clk (Suc t)" acc hits] one
  have p1: "list_all (printed_pair s) out1" by simp
  have u1: "\<forall>cp < MAX_CHECKPOINT. contributes s cp t \<longrightarrow> detail_line s t cp \<in> set out1"
    using dump_thread_used_slot [OF inv t, of _ "clk (Suc t)" acc hits] one by simp
  from Cons.IH [OF rest, of acc1 hits1] two
  have p2: "list_all (printed_pair s) out2"
    and u2: "\<forall>t \<in> set ts. \<forall>cp < MAX_CHECKPOINT. contributes s cp t \<longrightarrow>
               detail_line s t cp \<in> set out2"
    by simp_all
  from p1 p2 u1 u2 show ?case unfolding out by auto
qed

lemma dump_averages_pairs:
  assumes "\<And>i. i \<in> set cids \<Longrightarrow> average_line (acc, hits) i = weighted_average s i"
    and "dump_averages cids (acc, hits) = (out, res)"
  shows "list_all (printed_pair s) out"
  using assms
proof (induction cids arbitrary: out res)
  case Nil
  then show ?case by simp
next
  case (Cons i cids)
  obtain out' r' where rest: "dump_averages cids (acc, hits) = (out', r')"
    by (metis surj_pair)
  have IH: "list_all (printed_pair s) out'"
    by (rule Cons.IH [OF _ rest]) (simp add: Cons.prems(1))
  have line: "average_line (acc, hits) i = weighted_average s i"
    by (simp add: Cons.prems(1))
  have "out = out' \<or> out = [] \<or> out = average_line (acc, hits) i # out'"
    using Cons.prems(2) rest
    by (auto simp add: Let_def average_line_def split: if_splits prod.splits)
  with IH line show ?case by auto
qed

lemma throughput_threads_pairs:
  "throughput_threads clk m ts s = (out, res) \<Longrightarrow> list_all (printed_pair s0) out"
proof (induction ts arbitrary: s out res)
  case Nil
  then show ?case by auto
next
  case (Cons t ts)
  then show ?case
    by (auto simp add: vector_get_def Let_def split: if_splits prod.splits)
qed

lemma dumpThroughput_pairs:
  "dumpThroughput clk s = (out, res) \<Longrightarrow> list_all (printed_pair s0) out"
  by (auto simp add: dumpThroughput_def vector_get_def Let_def
      split: if_splits prod.splits sum.splits dest: throughput_threads_pairs)

lemma dump_threadIds_pairs:
  "dump_threadIds cids s = (out, res) \<Longrightarrow> list_all (printed_pair s0) out"
proof (induction cids arbitrary: out res)
  case Nil
  then show ?case by auto
next
  case (Cons i cids)
  then show ?case
    by (auto simp add: vector_get_def split: if_splits prod.splits)
qed

lemma dump_tail_pairs:
  assumes T: "dump_threads clk [0..<unat (threadIdCounter s)]
       (s, \<lambda>i. CheckpointInfo_ctor (clk 0 i), \<lambda>i. 0) = (o1, Inr (s1, avgs))"
    and A: "(if a then dump_averages [0..<MAX_CHECKPOINT] avgs else ([], Inr ())) = (o2, r2)"
  shows "\<exists>o3. fst (dump clk clkT a tp ids s) =
           [NumberOfThreads (numThreads s) (threadIdCounter s), TimerResolution] @ o1 @ o2 @ o3
         \<and> list_all (printed_pair s0) o3"
proof (cases r2)
  case (Inl f)
  with T A show ?thesis by (simp add: dump_def Let_def)
next
  case r2: (Inr u)
  obtain o3 r3 where D3: "(if tp then dumpThroughput clkT s1 else ([], Inr s1)) = (o3, r3)"
    by (metis surj_pair)
  have s3: "list_all (printed_pair s0) o3"
    using D3 dumpThroughput_pairs [of clkT s1 o3 r3] by (cases tp) auto
  show ?thesis
  proof (cases r3)
    case (Inl f)
    with T A r2 D3 s3 show ?thesis by (simp add: dump_def Let_def)
  next
    case r3: (Inr s2')
    obtain o4 r4 where D4: "(if ids
         then (case dump_threadIds [0..<unat (threadIdCounter s2')] s2' of
                 (out, res) \<Rightarrow> (ThreadIdsHeader (threadIdCounter s2') # out, res))
         else ([], Inr ())) = (o4, r4)"
      by (metis surj_pair)
    have s4: "list_all (printed_pair s0) o4"
      using D4 dump_threadIds_pairs [of "[0..<unat (threadIdCounter s2')]" s2']
      by (cases ids) (auto split: prod.splits)
    from T A r2 D3 r3 D4 s3 s4 show ?thesis
      by (cases r4) (simp_all add: dump_def Let_def)
  qed
qed

lemma dump_pairs_printed:
  assumes inv: "registry_inv s"
  shows "list_all (printed_pair s) (fst (dump clk clkT a tp ids s))
         \<and> (\<forall>thread < unat (threadIdCounter s). \<forall>cp < MAX_CHECKPOINT.
               contributes s cp thread \<longrightarrow>
                 detail_line s thread cp \<in> set (fst (dump clk clkT a tp ids s)))"
proof -
  obtain out1 acc' hits' where
    T: "dump_threads clk [0..<unat (threadIdCounter s)]
       (s, \<lambda>i. CheckpointInfo_ctor (clk 0 i), \<lambda>i. 0) = (out1, Inr (s, acc', hits'))"
    and its: "\<And>i. i < MAX_CHECKPOINT \<Longrightarrow>
       iterations (acc' i) = sum_list (map (\<lambda>t. iterations (thread_slot s t i)) (contributing s i))"
    and tot: "\<And>i. i < MAX_CHECKPOINT \<Longrightarrow>
       totalCycles (acc' i) = sum_list (map (\<lambda>t. totalCycles (thread_slot s t i)) (contributing s i))"
    and hits: "\<And>i. i < MAX_CHECKPOINT \<Longrightarrow> hits' i = of_nat (length (contributing s i))"
    by (rule dump_threads_all [OF inv, of clk]) (rule that)
  have ts: "\<forall>t \<in> set [0..<unat (threadIdCounter s)]. t < unat (threadIdCounter s)" by simp
  from dump_threads_pairs [OF inv ts, of clk "\<lambda>i. CheckpointInfo_ctor (clk 0 i)" "\<lambda>i. 0"] T
  have p1: "list_all (printed_pair s) out1"
    and u1: "\<forall>t \<in> set [0..<unat (threadIdCounter s)]. \<forall>cp < MAX_CHECKPOINT.
               contributes s cp t \<longrightarrow> detail_line s t cp \<in> set out1"
    by simp_all
  obtain o2 r2 where
    A: "(if a then dump_averages [0..<MAX_CHECKPOINT] (acc', hits') else ([], Inr ())) = (o2, r2)"
    by (metis surj_pair)
  have line: "\<And>i. i \<in> set [0..<MAX_CHECKPOINT] \<Longrightarrow>
      average_line (acc', hits') i = weighted_average s i"
    by (simp add: average_line_def weighted_average_def its tot hits hits_ucast Let_def)
  have p2: "list_all (printed_pair s) o2"
  proof (cases a)
    case True
    with A have "dump_averages [0..<MAX_CHECKPOINT] (acc', hits') = (o2, r2)" by simp
    from dump_averages_pairs [OF line this] show ?thesis by simp
  next
    case False
    with A show ?thesis by simp
  qed
  from dump_tail_pairs [OF T A, of clkT tp ids s] obtain o3 where
    out: "fst (dump clk clkT a tp ids s) =
           [NumberOfThreads (numThreads s) (threadIdCounter s), TimerResolution] @ out1 @ o2 @ o3"
    and p3: "list_all (printed_pair s) o3"
    by blast
  from p1 p2 p3 u1 show ?thesis unfolding out by auto
qed

lemma ms_record_slots:
  "checkpoints ms_record ! Suc 0
     = \<lparr>iterations = 1, totalCycles = 500000, previousCycles = 500050\<rparr>"
  by (simp add: ms_record_def)

lemma thread_slot_ms: "thread_slot registry_ms 0 i = checkpoints ms_record ! i"
  by (simp add: thread_slot_def registry_ms_def)

lemma registry_ms_inv: "registry_inv registry_ms"
  by (simp add: registry_inv_def registered_def registry_ms_def)

lemma detail_line_ms:
  "detail_line registry_ms 0 (Suc 0) = ThreadCheckpoint 0 1 1 MILLI_SEC_STR 500 500"
  by (simp add: detail_line_def thread_slot_ms ms_record_slots getTimeResolutionStr_def)

text \<open>
  C8, as stated, fails in its last clause. After one call of \<open>checkpoint(1)\<close> at clock
  reading 500050 by a thread whose record was constructed at 50, slot 1 has 1 iteration
  and a total of 500000: the average, 500000, exceeds its seconds threshold 99999 and the
  total does not exceed its seconds threshold 999999, so only one value of the pair
  exceeds a threshold; \<open>dump\<close> prints the pair scaled, as 500 and 500 MilliSec.
\<close>

theorem only_average_over_seconds_counterexample:
  "checkpoint_calls [(1, 1, clk50, 500050)] (Checkpoint_ctor 2 mem0) = Inr registry_ms
   \<and> registry_inv registry_ms
   \<and> iterations (thread_slot registry_ms 0 1) = 1
   \<and> totalCycles (thread_slot registry_ms 0 1) = 500000
   \<and> (500000 :: uint64_t) > 99999 \<and> \<not> (500000 :: uint64_t) > 999999
   \<and> ThreadCheckpoint 0 1 1 MILLI_SEC_STR 500 500
       \<in> set (fst (dump clk50_sites clk50_sites False False False registry_ms))"
proof -
  have c: "contributes registry_ms (Suc 0) 0"
    by (simp add: contributes_def thread_slot_ms ms_record_slots)
  have t: "0 < unat (threadIdCounter registry_ms)" by (simp add: registry_ms_def)
  have cp: "Suc 0 < MAX_CHECKPOINT" by (simp add: MAX_CHECKPOINT_def)
  from dump_pairs_printed [OF registry_ms_inv, of clk50_sites clk50_sites False False False] t cp c
  have "detail_line registry_ms 0 (Suc 0)
       \<in> set (fst (dump clk50_sites clk50_sites False False False registry_ms))"
    by blast
  then have "ThreadCheckpoint 0 1 1 MILLI_SEC_STR 500 500
       \<in> set (fst (dump clk50_sites clk50_sites False False False registry_ms))"
    by (simp only: detail_line_ms)
  with registry_ms_reachable registry_ms_inv show ?thesis
    by (simp add: thread_slot_ms ms_record_slots)
qed


text \<open>
  C8, amended. For every registry whose registered identities are distinct keys of the
  thread map, every line of \<open>dump\<close> that carries an elapsed-time pair is the line of its
  slot or of its id: its label and its two values are the outcome of one call of
  \<open>getTimeResolutionStr\<close> on the unscaled pair (average, total). That call divides both
  values by one common factor \<open>k\<close> under one label: 1000000 (Seconds) exactly when both
  values exceed the seconds thresholds; 1000 (MilliSec) exactly when that is not so and
  both exceed the milliseconds thresholds; otherwise 1 (MicroSec). A pair in which only
  one value exceeds its seconds threshold is not scaled to seconds, and is scaled to
  milliseconds when both values exceed the milliseconds thresholds; a pair in which only
  one value exceeds its milliseconds threshold is not scaled.
\<close>

theorem dump_scales_pairs_together:
  assumes inv: "registry_inv s"
  shows "list_all (printed_pair s) (fst (dump clk clkT av tp ids s))
     \<and> (\<exists>k u. getTimeResolutionStr a t = (u, a div k, t div k)
          \<and> (k = 1000000 \<or> k = 1000 \<or> k = 1)
          \<and> (k = 1000000) = (a > 99999 \<and> t > 999999)
          \<and> (k = 1000) = (\<not> (a > 99999 \<and> t > 999999) \<and> a > 9999 \<and> t > 99999)
          \<and> (u = SECOND_STR) = (k = 1000000)
          \<and> (u = MILLI_SEC_STR) = (k = 1000)
          \<and> (u = MICRO_SEC_STR) = (k = 1)
          \<and> ((a > 99999) \<noteq> (t > 999999) \<longrightarrow> k \<noteq> 1000000)
          \<and> ((a > 99999) \<noteq> (t > 999999) \<and> a > 9999 \<and> t > 99999 \<longrightarrow> k = 1000)
          \<and> ((a > 9999) \<noteq> (t > 99999) \<longrightarrow> k = 1))"
proof -
  from getTimeResolutionStr_common_factor [of a t] obtain k u where
    f: "getTimeResolutionStr a t = (u, a div k, t div k)"
      "k = 1000000 \<or> k = 1000 \<or> k = 1"
      "(k = 1000000) = (a > 99999 \<and> t > 999999)"
      "(k = 1000) = (\<not> (a > 99999 \<and> t > 999999) \<and> a > 9999 \<and> t > 99999)"
      "(u = SECOND_STR) = (k = 1000000)"
      "(u = MILLI_SEC_STR) = (k = 1000)"
      "(u = MICRO_SEC_STR) = (k = 1)"
    by blast
  have sec: "(a > 99999) \<noteq> (t > 999999) \<longrightarrow> k \<noteq> 1000000"
    using f(3) by blast
  have ms: "(a > 99999) \<noteq> (t > 999999) \<and> a > 9999 \<and> t > 99999 \<longrightarrow> k = 1000"
    using f(4) by blast
  have big: "a > 99999 \<Longrightarrow> a > 9999" "t > 999999 \<Longrightarrow> t > 99999"
    by (simp_all add: word_less_nat_alt)
  have us: "(a > 9999) \<noteq> (t > 99999) \<longrightarrow> k = 1"
    using f(2,3,4) big by blast
  from dump_pairs_printed [OF inv, of clk clkT av tp ids]
  have "list_all (printed_pair s) (fst (dump clk clkT av tp ids s))" by blast
  with f sec ms us show ?thesis by blast
qed

theorem dump_scales_pairs_together_witness:
  "registry_inv registry_ms
   \<and> list_all (printed_pair registry_ms)
       (fst (dump clk50_sites clk50_sites True True True registry_ms))
   \<and> getTimeResolutionStr 100000 500000 = (MILLI_SEC_STR, 100, 500)
   \<and> getTimeResolutionStr 20000 50000 = (MICRO_SEC_STR, 20000, 50000)
   \<and> getTimeResolutionStr 2000000 6000000 = (SECOND_STR, 2, 6)"
proof -
  note t = dump_scales_pairs_together [OF registry_ms_inv,
      of clk50_sites clk50_sites True True True 100000 500000]
  from t have "list_all (printed_pair registry_ms)
       (fst (dump clk50_sites clk50_sites True True True registry_ms))"
    by (rule conjunct1)
  moreover from t obtain k u where
    "getTimeResolutionStr 100000 500000 = (u, 100000 div k, 500000 div k)"
    "(u = MILLI_SEC_STR) = (k = 1000)"
    "((100000 :: uint64_t) > 99999) \<noteq> ((500000 :: uint64_t) > 999999)
       \<and> (100000 :: uint64_t) > 9999 \<and> (500000 :: uint64_t) > 99999 \<longrightarrow> k = 1000"
    by blast
  then have "getTimeResolutionStr 100000 500000 = (MILLI_SEC_STR, 100, 500)"
    by simp
  moreover have "getTimeResolutionStr 20000 50000 = (MICRO_SEC_STR, 20000, 50000)"
    by (simp add: getTimeResolutionStr_def)
  moreover have "getTimeResolutionStr 2000000 6000000 = (SECOND_STR, 2, 6)"
    by (simp add: getTimeResolutionStr_def)
  ultimately show ?thesis using registry_ms_inv by simp
qed

end
